theory Spec2Isabelle
  imports Complex_Main "HOL-Library.Monad_Syntax"
begin

section \<open>Data model\<close>

text \<open>
  The class \<open>FM\<close> is a template over the scalar type \<open>Real\<close>. The embedding instantiates it
  with the reals of HOL: arithmetic is exact, rounding is not modelled. Sizes (\<open>size_t\<close>,
  \<open>Eigen::Index\<close>) are natural numbers; \<open>size_t\<close> is 64 bits wide, and the sum that the
  consistency check accumulates in a \<open>size_t\<close> wraps around as in the source. \<open>n_factors\<close>
  and \<open>n_features\<close> are \<open>int\<close> as in the source.

  An Eigen matrix (sparse or dense) is its number of rows, its number of columns and its
  coefficients; a coefficient outside the dimensions is never read by the operations below.
  An Eigen \<open>Vector\<close> is the list of its coefficients.
\<close>

record matrix =
  rows :: nat
  cols :: nat
  coeff :: "nat \<Rightarrow> nat \<Rightarrow> real"

text \<open>
  Modelled from the spec: \<open>definitions.hpp\<close>, which declares \<open>relational::RelationBlock\<close>, is
  not among the sources. The record has the three members that \<open>predict_score\<close> reads: the
  mapping from cases to block rows, the matrix of the unique rows, and the block's share of
  the feature dimension.
\<close>

record RelationBlock =
  original_to_block :: "nat list"
  X :: matrix
  feature_size :: nat

record FM =
  n_factors :: int
  w0 :: real
  w :: "real list"
  V :: matrix
  initialized :: bool

text \<open>
  \<open>InvalidArgument\<close> is \<open>std::invalid_argument\<close>, \<open>NotInitialized\<close> is the
  \<open>std::runtime_error\<close> of a score requested before initialization, \<open>AssertionFailed\<close> is a
  failed \<open>eigen_assert\<close> (the program aborts; with assertions compiled out the behaviour
  is undefined).
\<close>

datatype error = InvalidArgument | NotInitialized | AssertionFailed

text \<open>The constructor \<open>FM(Real w0, const Vector &w, const DenseMatrix &V)\<close>.\<close>

definition FM_of :: "real \<Rightarrow> real list \<Rightarrow> matrix \<Rightarrow> FM" where
  "FM_of b wv Vm =
     \<lparr>n_factors = int (cols Vm), w0 = b, w = wv, V = Vm, initialized = True\<rparr>"

text \<open>
  The constructor \<open>FM(int n_factors, size_t n_groups)\<close>: \<open>w\<close> and \<open>V\<close> are empty, \<open>w0\<close>
  is not initialized by the constructor and is a parameter here.
\<close>

definition FM_new :: "int \<Rightarrow> real \<Rightarrow> FM" where
  "FM_new k b =
     \<lparr>n_factors = k, w0 = b, w = [], V = \<lparr>rows = 0, cols = 0, coeff = \<lambda>i j. 0\<rparr>,
      initialized = False\<rparr>"

section \<open>Eigen operations\<close>

text \<open>
  Each operation returns \<open>None\<close> where Eigen's assertion on the dimensions or on an index
  fails.
\<close>

definition head :: "real list \<Rightarrow> nat \<Rightarrow> real list option" where
  "head v n = (if n \<le> length v then Some (take n v) else None)"

definition segment :: "real list \<Rightarrow> nat \<Rightarrow> nat \<Rightarrow> real list option" where
  "segment v start n = (if start + n \<le> length v then Some (take n (drop start v)) else None)"

definition col :: "matrix \<Rightarrow> nat \<Rightarrow> real list option" where
  "col M j = (if j < cols M then Some (map (\<lambda>i. coeff M i j) [0..<rows M]) else None)"

definition mat_vec :: "matrix \<Rightarrow> real list \<Rightarrow> real list option" where
  "mat_vec M v =
     (if cols M = length v
      then Some (map (\<lambda>i. \<Sum>j\<leftarrow>[0..<cols M]. coeff M i j * v ! j) [0..<rows M])
      else None)"

definition mat_mat :: "matrix \<Rightarrow> matrix \<Rightarrow> matrix option" where
  "mat_mat A B =
     (if cols A = rows B
      then Some \<lparr>rows = rows A, cols = cols B,
                 coeff = \<lambda>i k. \<Sum>j\<leftarrow>[0..<cols A]. coeff A i j * coeff B j k\<rparr>
      else None)"

definition cwiseAbs2 :: "matrix \<Rightarrow> matrix" where
  "cwiseAbs2 M = M\<lparr>coeff := \<lambda>i j. coeff M i j * coeff M i j\<rparr>"

definition square :: "real list \<Rightarrow> real list" where
  "square v = map (\<lambda>x. x * x) v"

definition rowwise_sum :: "matrix \<Rightarrow> real list" where
  "rowwise_sum M = map (\<lambda>i. \<Sum>k\<leftarrow>[0..<cols M]. coeff M i k) [0..<rows M]"

text \<open>Coefficient-wise \<open>a += b\<close> and \<open>a -= b\<close> on vectors.\<close>

definition cwise_add :: "real list \<Rightarrow> real list \<Rightarrow> real list option" where
  "cwise_add a b = (if length a = length b then Some (map2 (+) a b) else None)"

definition cwise_sub :: "real list \<Rightarrow> real list \<Rightarrow> real list option" where
  "cwise_sub a b = (if length a = length b then Some (map2 (-) a b) else None)"

text \<open>
  Assignment to an \<open>Eigen::Map<Vector>\<close> of \<open>n\<close> coefficients: a map cannot be resized, the
  assigned expression must have \<open>n\<close> coefficients.
\<close>

definition map_assign :: "nat \<Rightarrow> real list \<Rightarrow> real list option" where
  "map_assign n v = (if length v = n then Some v else None)"

text \<open>
  The loop \<open>for (auto i : original_to_block) acc(j++) += cache(i);\<close>
\<close>

fun gather_add :: "real list \<Rightarrow> nat \<Rightarrow> nat list \<Rightarrow> real list \<Rightarrow> real list option" where
  "gather_add acc j [] cache = Some acc"
| "gather_add acc j (i # rest) cache =
     (if j < length acc \<and> i < length cache
      then gather_add (acc[j := acc ! j + cache ! i]) (Suc j) rest cache
      else None)"

section \<open>The scoring engine\<close>

text \<open>The value of a size after conversion to \<open>size_t\<close>, and of a sum computed in \<open>size_t\<close>.\<close>

definition size_t :: "nat \<Rightarrow> nat" where
  "size_t n = n mod 2 ^ 64"

text \<open>
  The consistency loop over the relation blocks; \<open>feature_size_all\<close>, a \<open>size_t\<close>, is the
  accumulator.
\<close>

fun check_relations :: "nat \<Rightarrow> nat \<Rightarrow> RelationBlock list \<Rightarrow> error + nat" where
  "check_relations case_size feature_size_all [] = Inr feature_size_all"
| "check_relations case_size feature_size_all (rel # rels) =
     (if case_size \<noteq> length (original_to_block rel) then Inl InvalidArgument
      else check_relations case_size (size_t (feature_size_all + feature_size rel)) rels)"

text \<open>The linear term of the relation blocks: \<open>w0_cache\<close> is a \<open>Vector\<close> of its own.\<close>

fun linear_blocks ::
  "real list \<Rightarrow> RelationBlock list \<Rightarrow> nat \<Rightarrow> real list \<Rightarrow> real list option" where
  "linear_blocks wv [] offset result = Some result"
| "linear_blocks wv (rel # rels) offset result = do {
     seg \<leftarrow> segment wv offset (feature_size rel);
     w0_cache \<leftarrow> mat_vec (X rel) seg;
     result' \<leftarrow> gather_add result 0 (original_to_block rel) w0_cache;
     linear_blocks wv rels (offset + feature_size rel) result'
   }"

text \<open>
  The two block loops of one factor. \<open>block_cache\<close> is a map of \<open>feature_size\<close> coefficients
  on the scratch buffer, whose size is the largest \<open>feature_size\<close> (at least 1), so the map
  always fits in the buffer.
\<close>

fun q_blocks ::
  "real list \<Rightarrow> RelationBlock list \<Rightarrow> nat \<Rightarrow> real list \<Rightarrow> real list option" where
  "q_blocks vcol [] offset q_cache = Some q_cache"
| "q_blocks vcol (rel # rels) offset q_cache = do {
     seg \<leftarrow> segment vcol offset (feature_size rel);
     prod \<leftarrow> mat_vec (X rel) seg;
     block_cache \<leftarrow> map_assign (feature_size rel) prod;
     q_cache' \<leftarrow> gather_add q_cache 0 (original_to_block rel) block_cache;
     q_blocks vcol rels (offset + feature_size rel) q_cache'
   }"

fun q2_blocks ::
  "real list \<Rightarrow> RelationBlock list \<Rightarrow> nat \<Rightarrow> real list \<Rightarrow> real list option" where
  "q2_blocks vcol [] offset q_cache = Some q_cache"
| "q2_blocks vcol (rel # rels) offset q_cache = do {
     seg \<leftarrow> segment vcol offset (feature_size rel);
     prod \<leftarrow> mat_vec (cwiseAbs2 (X rel)) (square seg);
     block_cache \<leftarrow> map_assign (feature_size rel) prod;
     q_cache' \<leftarrow> gather_add q_cache 0 (original_to_block rel) block_cache;
     q2_blocks vcol rels (offset + feature_size rel) q_cache'
   }"

text \<open>The body of the loop over \<open>factor_index\<close>.\<close>

definition factor_step ::
  "FM \<Rightarrow> matrix \<Rightarrow> RelationBlock list \<Rightarrow> nat \<Rightarrow> real list \<Rightarrow> real list option" where
  "factor_step fm Xb relations factor_index result = do {
     vcol \<leftarrow> col (V fm) factor_index;
     vhead \<leftarrow> head vcol (cols Xb);
     q0 \<leftarrow> mat_vec Xb vhead;
     q \<leftarrow> q_blocks vcol relations (cols Xb) q0;
     result1 \<leftarrow> cwise_add result (map (\<lambda>x. x * (1 / 2)) (square q));
     c0 \<leftarrow> mat_vec (cwiseAbs2 Xb) (square vhead);
     c \<leftarrow> q2_blocks vcol relations (cols Xb) c0;
     cwise_sub result1 (map (\<lambda>x. x * (1 / 2)) c)
   }"

fun factor_loop ::
  "FM \<Rightarrow> matrix \<Rightarrow> RelationBlock list \<Rightarrow> nat list \<Rightarrow> real list \<Rightarrow> real list option" where
  "factor_loop fm Xb relations [] result = Some result"
| "factor_loop fm Xb relations (factor_index # rest) result = do {
     result' \<leftarrow> factor_step fm Xb relations factor_index result;
     factor_loop fm Xb relations rest result'
   }"

text \<open>Everything after the three checks.\<close>

definition score_body :: "FM \<Rightarrow> matrix \<Rightarrow> RelationBlock list \<Rightarrow> real list option" where
  "score_body fm Xb relations = do {
     whead \<leftarrow> head (w fm) (cols Xb);
     xw \<leftarrow> mat_vec Xb whead;
     result \<leftarrow> linear_blocks (w fm) relations (cols Xb) (map (\<lambda>x. w0 fm + x) xw);
     factor_loop fm Xb relations [0..<nat (n_factors fm)] result
   }"

definition predict_score :: "FM \<Rightarrow> matrix \<Rightarrow> RelationBlock list \<Rightarrow> error + real list" where
  "predict_score fm Xb relations =
     (case check_relations (rows Xb) (size_t (cols Xb)) relations of
        Inl e \<Rightarrow> Inl e
      | Inr feature_size_all \<Rightarrow>
          if feature_size_all \<noteq> size_t (length (w fm)) then Inl InvalidArgument
          else if \<not> initialized fm then Inl NotInitialized
          else (case score_body fm Xb relations of
                  None \<Rightarrow> Inl AssertionFailed
                | Some result \<Rightarrow> Inr result))"

text \<open>
  The scoring function without relation blocks (\<open>predict_score(const SparseMatrix &X)\<close>).
  On real scalars \<open>.array().square()\<close> is \<open>cwiseAbs2\<close>, which stands for both on matrices.
\<close>

definition predict_score_noblock :: "FM \<Rightarrow> matrix \<Rightarrow> error + real list" where
  "predict_score_noblock fm Xb =
     (if \<not> initialized fm then Inl NotInitialized
      else (case do {
                  xw \<leftarrow> mat_vec Xb (w fm);
                  xv \<leftarrow> mat_mat Xb (V fm);
                  result1 \<leftarrow> cwise_add (map (\<lambda>x. w0 fm + x) xw)
                              (map (\<lambda>x. x * (1 / 2)) (rowwise_sum (cwiseAbs2 xv)));
                  c \<leftarrow> mat_vec (cwiseAbs2 Xb)
                        (map (\<lambda>x. (1 / 2) * x) (rowwise_sum (cwiseAbs2 (V fm))));
                  cwise_sub result1 c
                } of
              None \<Rightarrow> Inl AssertionFailed
            | Some result \<Rightarrow> Inr result))"

section \<open>The call of the scoring engine on its frame\<close>

text \<open>
  The same function with its state passed explicitly. A frame holds the objects that a call
  of \<open>predict_score\<close> can reach: the model \<open>*this\<close>, the two arguments, and the local vectors
  \<open>result\<close>, \<open>q_cache\<close> and \<open>buffer_cache\<close>; \<open>uninit\<close> is the indeterminate content of fresh
  memory, which \<open>Vector q_cache(result.rows())\<close> does not initialize. Every assignment of
  the source to one of these objects is an update of the frame. The scalar locals (sizes,
  offsets and indices) are the arguments of the loops; \<open>w0_cache\<close> lives for one iteration;
  \<open>block_q_caches\<close> is never used and is left out.
\<close>

record frame =
  this :: FM
  arg_X :: matrix
  arg_relations :: "RelationBlock list"
  result :: "real list"
  q_cache :: "real list"
  buffer_cache :: "real list"
  uninit :: "nat \<Rightarrow> real"

text \<open>
  A call returns a score, throws an exception, or aborts in a failed \<open>eigen_assert\<close>; the
  first two leave a frame behind.
\<close>

datatype outcome = Returns "real list" frame | Throws error frame | Aborts

fun value_of :: "outcome \<Rightarrow> error + real list" where
  "value_of (Returns r s) = Inr r"
| "value_of (Throws e s) = Inl e"
| "value_of Aborts = Inl AssertionFailed"

text \<open>
  Assignment to \<open>block_cache\<close>, the map of \<open>n\<close> coefficients at the start of the buffer:
  the coefficients are written into the buffer, the rest of the buffer stays.
\<close>

definition map_store :: "real list \<Rightarrow> nat \<Rightarrow> real list \<Rightarrow> real list option" where
  "map_store buffer n v =
     (if length v = n \<and> n \<le> length buffer then Some (v @ drop n buffer) else None)"

text \<open>The loop \<open>buffer_size = std::max(buffer_size, relation.feature_size)\<close>.\<close>

fun buffer_size_of :: "nat \<Rightarrow> RelationBlock list \<Rightarrow> nat" where
  "buffer_size_of buffer_size [] = buffer_size"
| "buffer_size_of buffer_size (relation # rest) =
     buffer_size_of (max buffer_size (feature_size relation)) rest"

text \<open>The loop of the linear term, which writes \<open>result\<close>.\<close>

fun linear_blocks_st :: "RelationBlock list \<Rightarrow> nat \<Rightarrow> frame \<Rightarrow> frame option" where
  "linear_blocks_st [] offset s = Some s"
| "linear_blocks_st (rel # rels) offset s = do {
     seg \<leftarrow> segment (w (this s)) offset (feature_size rel);
     w0_cache \<leftarrow> mat_vec (X rel) seg;
     r \<leftarrow> gather_add (result s) 0 (original_to_block rel) w0_cache;
     linear_blocks_st rels (offset + feature_size rel) (s\<lparr>result := r\<rparr>)
   }"

text \<open>
  The two block loops of one factor, which write the buffer through \<open>block_cache\<close> and then
  \<open>q_cache\<close>; \<open>block_cache(i)\<close> reads the first \<open>feature_size\<close> coefficients of the buffer.
\<close>

fun q_blocks_st :: "real list \<Rightarrow> RelationBlock list \<Rightarrow> nat \<Rightarrow> frame \<Rightarrow> frame option" where
  "q_blocks_st vcol [] offset s = Some s"
| "q_blocks_st vcol (rel # rels) offset s = do {
     seg \<leftarrow> segment vcol offset (feature_size rel);
     prod \<leftarrow> mat_vec (X rel) seg;
     buffer \<leftarrow> map_store (buffer_cache s) (feature_size rel) prod;
     q \<leftarrow> gather_add (q_cache s) 0 (original_to_block rel) (take (feature_size rel) buffer);
     q_blocks_st vcol rels (offset + feature_size rel)
       (s\<lparr>q_cache := q, buffer_cache := buffer\<rparr>)
   }"

fun q2_blocks_st :: "real list \<Rightarrow> RelationBlock list \<Rightarrow> nat \<Rightarrow> frame \<Rightarrow> frame option" where
  "q2_blocks_st vcol [] offset s = Some s"
| "q2_blocks_st vcol (rel # rels) offset s = do {
     seg \<leftarrow> segment vcol offset (feature_size rel);
     prod \<leftarrow> mat_vec (cwiseAbs2 (X rel)) (square seg);
     buffer \<leftarrow> map_store (buffer_cache s) (feature_size rel) prod;
     q \<leftarrow> gather_add (q_cache s) 0 (original_to_block rel) (take (feature_size rel) buffer);
     q2_blocks_st vcol rels (offset + feature_size rel)
       (s\<lparr>q_cache := q, buffer_cache := buffer\<rparr>)
   }"

text \<open>The body of the loop over \<open>factor_index\<close>, and the loop.\<close>

definition factor_step_st :: "nat \<Rightarrow> frame \<Rightarrow> frame option" where
  "factor_step_st factor_index s = do {
     vcol \<leftarrow> col (V (this s)) factor_index;
     vhead \<leftarrow> head vcol (cols (arg_X s));
     q0 \<leftarrow> mat_vec (arg_X s) vhead;
     s1 \<leftarrow> q_blocks_st vcol (arg_relations s) (cols (arg_X s)) (s\<lparr>q_cache := q0\<rparr>);
     r1 \<leftarrow> cwise_add (result s1) (map (\<lambda>x. x * (1 / 2)) (square (q_cache s1)));
     c0 \<leftarrow> mat_vec (cwiseAbs2 (arg_X s1)) (square vhead);
     s2 \<leftarrow> q2_blocks_st vcol (arg_relations s1) (cols (arg_X s1))
             (s1\<lparr>result := r1, q_cache := c0\<rparr>);
     r2 \<leftarrow> cwise_sub (result s2) (map (\<lambda>x. x * (1 / 2)) (q_cache s2));
     Some (s2\<lparr>result := r2\<rparr>)
   }"

fun factor_loop_st :: "nat list \<Rightarrow> frame \<Rightarrow> frame option" where
  "factor_loop_st [] s = Some s"
| "factor_loop_st (factor_index # rest) s = do {
     s' \<leftarrow> factor_step_st factor_index s;
     factor_loop_st rest s'
   }"

text \<open>
  Everything after the three checks: \<open>result\<close> is constructed, the linear loop runs,
  \<open>q_cache\<close> is constructed without initialization, \<open>buffer_cache\<close> is constructed with one
  zero and resized with zeros, and the factor loop runs.
\<close>

definition score_body_st :: "frame \<Rightarrow> frame option" where
  "score_body_st s = do {
     whead \<leftarrow> head (w (this s)) (cols (arg_X s));
     xw \<leftarrow> mat_vec (arg_X s) whead;
     s1 \<leftarrow> linear_blocks_st (arg_relations s) (cols (arg_X s))
             (s\<lparr>result := map (\<lambda>x. w0 (this s) + x) xw\<rparr>);
     factor_loop_st [0..<nat (n_factors (this s1))]
       (s1\<lparr>q_cache := map (uninit s1) [0..<length (result s1)],
            buffer_cache := replicate (buffer_size_of 1 (arg_relations s1)) 0\<rparr>)
   }"

text \<open>The call: an exception is thrown from the frame of the entry.\<close>

definition predict_score_call :: "frame \<Rightarrow> outcome" where
  "predict_score_call s =
     (case check_relations (rows (arg_X s)) (size_t (cols (arg_X s))) (arg_relations s) of
        Inl e \<Rightarrow> Throws e s
      | Inr feature_size_all \<Rightarrow>
          if feature_size_all \<noteq> size_t (length (w (this s))) then Throws InvalidArgument s
          else if \<not> initialized (this s) then Throws NotInitialized s
          else (case score_body_st s of
                  None \<Rightarrow> Aborts
                | Some s' \<Rightarrow> Returns (result s') s'))"

section \<open>Weight initialization\<close>

text \<open>
  The generator \<open>mt19937\<close> and the distributions of the standard library are parameters: a
  distribution maps the state of the generator to a deviate and the next state (the state
  stands for the generator together with the distribution object of the call).
  \<open>unaryExpr(get_rand)\<close> calls \<open>get_rand\<close> once for each coefficient, in storage order
  (column by column for the column-major \<open>V\<close>).
\<close>

fun draws :: "('g \<Rightarrow> real \<times> 'g) \<Rightarrow> nat \<Rightarrow> 'g \<Rightarrow> real list \<times> 'g" where
  "draws draw 0 gen = ([], gen)"
| "draws draw (Suc n) gen =
     (case draw gen of (z, gen') \<Rightarrow>
        case draws draw n gen' of (zs, gen'') \<Rightarrow> (z # zs, gen''))"

definition initialize_weight ::
  "('g \<Rightarrow> real \<times> 'g) \<Rightarrow> FM \<Rightarrow> int \<Rightarrow> real \<Rightarrow> 'g \<Rightarrow> error + (FM \<times> 'g)" where
  "initialize_weight nd fm n_features init_std gen =
     (if n_features < 0 \<or> n_factors fm < 0 then Inl AssertionFailed
      else
        let P = nat n_features;
            K = nat (n_factors fm);
            (vs, gen1) = draws nd (P * K) gen;
            (ws, gen2) = draws nd P gen1;
            (z, gen3) = nd gen2
        in Inr (fm\<lparr>w0 := z * init_std,
                   w := map (\<lambda>x. x * init_std) ws,
                   V := \<lparr>rows = P, cols = K, coeff = \<lambda>i j. vs ! (j * P + i) * init_std\<rparr>,
                   initialized := True\<rparr>,
                gen3))"

section \<open>Truncated normal sampler\<close>

text \<open>
  The two \<open>while (true)\<close> loops; \<open>None\<close> is a loop that never returns. In the second loop
  \<open>draw\<close> is \<open>uniform_real_distribution(0, 1)\<close>, whose deviates lie in \<open>[0, 1)\<close>. For a
  deviate \<open>0\<close> the candidate \<open>- log 0 / alpha_star + mu_minus\<close> is \<open>+inf\<close> and \<open>rho\<close> is
  \<open>exp (-inf) = 0\<close>, so the test \<open>u < rho\<close> fails and the loop goes on.
\<close>

partial_function (option) normal_rejection ::
  "('g \<Rightarrow> real \<times> 'g) \<Rightarrow> real \<Rightarrow> 'g \<Rightarrow> (real \<times> 'g) option" where
  "normal_rejection draw mu_minus gen =
     (case draw gen of (z, gen') \<Rightarrow>
        if z > mu_minus then Some (z, gen') else normal_rejection draw mu_minus gen')"

partial_function (option) exponential_rejection ::
  "('g \<Rightarrow> real \<times> 'g) \<Rightarrow> real \<Rightarrow> real \<Rightarrow> 'g \<Rightarrow> (real \<times> 'g) option" where
  "exponential_rejection draw mu_minus alpha_star gen =
     (case draw gen of (u1, gen1) \<Rightarrow>
      case draw gen1 of (u, gen2) \<Rightarrow>
        if u1 \<le> 0 then exponential_rejection draw mu_minus alpha_star gen2
        else
          let z = - ln u1 / alpha_star + mu_minus;
              rho = exp (- (z - alpha_star) * (z - alpha_star) / 2)
          in if u < rho then Some (z, gen2)
             else exponential_rejection draw mu_minus alpha_star gen2)"

definition sample_truncated_normal_left ::
  "('g \<Rightarrow> real \<times> 'g) \<Rightarrow> ('g \<Rightarrow> real \<times> 'g) \<Rightarrow> 'g \<Rightarrow> real \<Rightarrow> (real \<times> 'g) option" where
  "sample_truncated_normal_left normal_dist uniform_dist gen mu_minus =
     (if mu_minus < 0 then normal_rejection normal_dist mu_minus gen
      else exponential_rejection uniform_dist mu_minus
             ((mu_minus + sqrt (mu_minus * mu_minus + 4)) / 2) gen)"

definition sample_truncated_normal_right ::
  "('g \<Rightarrow> real \<times> 'g) \<Rightarrow> ('g \<Rightarrow> real \<times> 'g) \<Rightarrow> 'g \<Rightarrow> real \<Rightarrow> (real \<times> 'g) option" where
  "sample_truncated_normal_right normal_dist uniform_dist gen mu_plus =
     (case sample_truncated_normal_left normal_dist uniform_dist gen (- mu_plus) of
        None \<Rightarrow> None
      | Some (z, gen') \<Rightarrow> Some (- z, gen'))"

section \<open>Concrete inputs\<close>

text \<open>
  Deterministic stand-ins for the distributions, on a generator whose state is a counter:
  a constant deviate, the deviates \<open>0, 1, 2, \<dots>\<close> and the deviates \<open>-2, -1, 0, \<dots>\<close>.
\<close>

definition const_draw :: "real \<Rightarrow> nat \<Rightarrow> real \<times> nat" where
  "const_draw c gen = (c, Suc gen)"

definition counter_draw :: "nat \<Rightarrow> real \<times> nat" where
  "counter_draw gen = (real gen, Suc gen)"

definition ramp_draw :: "nat \<Rightarrow> real \<times> nat" where
  "ramp_draw gen = (real gen - 2, Suc gen)"

text \<open>A base matrix with two cases and one column, and one with two cases and no column.\<close>

definition base_example :: matrix where
  "base_example = \<lparr>rows = 2, cols = 1, coeff = \<lambda>i j. real (Suc i)\<rparr>"


text \<open>
  A model with two features and one factor, a relation block whose single row is shared by
  both cases, and a relation block with one row for each case.
\<close>

definition factor_example :: matrix where
  "factor_example = \<lparr>rows = 2, cols = 1, coeff = \<lambda>i j. real (Suc i)\<rparr>"

definition example_FM :: FM where
  "example_FM = FM_of 1 [2, 3] factor_example"

definition shared_block :: RelationBlock where
  "shared_block =
     \<lparr>original_to_block = [0, 0], X = \<lparr>rows = 1, cols = 1, coeff = \<lambda>i j. 3\<rparr>, feature_size = 1\<rparr>"

definition identity_block :: RelationBlock where
  "identity_block =
     \<lparr>original_to_block = [0, 1], X = \<lparr>rows = 2, cols = 1, coeff = \<lambda>i j. 3 + real i\<rparr>,
      feature_size = 1\<rparr>"

text \<open>
  The frame at the entry of a call, with nothing in the local vectors; a base matrix with
  two columns; a relation block of \<open>2^63 - 1\<close> columns, the largest number of columns of
  an Eigen matrix; a relation block whose feature size is \<open>2^64 - 1\<close>.
\<close>

definition enter :: "FM \<Rightarrow> matrix \<Rightarrow> RelationBlock list \<Rightarrow> frame" where
  "enter fm Xb relations =
     \<lparr>this = fm, arg_X = Xb, arg_relations = relations,
      result = [], q_cache = [], buffer_cache = [], uninit = \<lambda>i. 0\<rparr>"




section \<open>Reference computation\<close>

text \<open>
  The direct quadratic form of the specification,
  \<open>bias + X w + 1/2 * (\<Sum>f. (X v\<^sub>f)\<^sup>2 - X\<^sup>2 v\<^sub>f\<^sup>2)\<close>, on a matrix \<open>A\<close> with the weights \<open>wv\<close>, the
  factor matrix \<open>Vm\<close> and \<open>K\<close> factors: column \<open>j\<close> of \<open>A\<close> meets \<open>wv ! j\<close> and row \<open>j\<close> of
  \<open>Vm\<close>.
\<close>

definition direct_score :: "real \<Rightarrow> real list \<Rightarrow> matrix \<Rightarrow> nat \<Rightarrow> matrix \<Rightarrow> real list" where
  "direct_score b wv Vm K A =
     map (\<lambda>i. b + (\<Sum>j\<leftarrow>[0..<cols A]. coeff A i j * wv ! j)
              + (1 / 2) * (\<Sum>f\<leftarrow>[0..<K].
                   (\<Sum>j\<leftarrow>[0..<cols A]. coeff A i j * coeff Vm j f)\<^sup>2
                 - (\<Sum>j\<leftarrow>[0..<cols A]. (coeff A i j)\<^sup>2 * (coeff Vm j f)\<^sup>2)))
         [0..<rows A]"

text \<open>
  The expanded feature matrix: the columns of the base matrix, followed by the columns of
  each relation block in the order of the list, every case reading the block row that its
  mapping names. \<open>hconcat\<close> puts two matrices side by side, row by row.
\<close>

definition append_block :: "matrix \<Rightarrow> RelationBlock \<Rightarrow> matrix" where
  "append_block A rel =
     \<lparr>rows = rows A, cols = cols A + feature_size rel,
      coeff = \<lambda>i j. if j < cols A then coeff A i j
                     else coeff (X rel) (original_to_block rel ! i) (j - cols A)\<rparr>"

fun expand :: "matrix \<Rightarrow> RelationBlock list \<Rightarrow> matrix" where
  "expand A [] = A"
| "expand A (rel # rels) = expand (append_block A rel) rels"

definition hconcat :: "matrix \<Rightarrow> matrix \<Rightarrow> matrix" where
  "hconcat A B =
     \<lparr>rows = rows A, cols = cols A + cols B,
      coeff = \<lambda>i j. if j < cols A then coeff A i j else coeff B i (j - cols A)\<rparr>"

text \<open>
  Auxiliary notions of the proofs: a block with its matrix squared coefficient-wise; a
  block that the linear loop can process for \<open>N\<close> cases; inputs on which \<open>predict_score\<close>
  returns a score.
\<close>

definition sq_block :: "RelationBlock \<Rightarrow> RelationBlock" where
  "sq_block rel = rel\<lparr>X := cwiseAbs2 (X rel)\<rparr>"

definition block_fits :: "nat \<Rightarrow> RelationBlock \<Rightarrow> bool" where
  "block_fits N rel \<longleftrightarrow>
     length (original_to_block rel) = N \<and>
     cols (X rel) = feature_size rel \<and>
     (\<forall>b\<in>set (original_to_block rel). b < rows (X rel))"

definition scorable :: "FM \<Rightarrow> matrix \<Rightarrow> RelationBlock list \<Rightarrow> bool" where
  "scorable fm Xb rels \<longleftrightarrow>
     initialized fm \<and>
     cols Xb + sum_list (map feature_size rels) = length (w fm) \<and>
     (\<forall>rel\<in>set rels. block_fits (rows Xb) rel) \<and>
     nat (n_factors fm) \<le> cols (V fm) \<and>
     (0 < n_factors fm \<longrightarrow>
        length (w fm) \<le> rows (V fm) \<and> (\<forall>rel\<in>set rels. rows (X rel) = feature_size rel))"

section \<open>Input validation\<close>

lemma size_t_add_left: "size_t (size_t a + b) = size_t (a + b)"
  by (simp add: size_t_def mod_add_left_eq)


lemma check_relations_eq:
  "check_relations n (size_t acc) rels =
     (if \<exists>rel\<in>set rels. length (original_to_block rel) \<noteq> n then Inl InvalidArgument
      else Inr (size_t (acc + sum_list (map feature_size rels))))"
proof (induction rels arbitrary: acc)
  case Nil
  then show ?case by simp
next
  case (Cons rel rels)
  show ?case
    using Cons.IH[of "acc + feature_size rel"]
    by (auto simp: size_t_add_left add.assoc)
qed


lemma predict_score_uninitialized_iff:
  "predict_score fm Xb relations = Inl NotInitialized \<longleftrightarrow>
     \<not> ((\<exists>rel\<in>set relations. length (original_to_block rel) \<noteq> rows Xb) \<or>
        size_t (cols Xb + sum_list (map feature_size relations)) \<noteq> size_t (length (w fm))) \<and>
     \<not> initialized fm"
  by (simp add: predict_score_def check_relations_eq split: option.splits)

section \<open>Weight initialization\<close>

lemma draws_length: "draws d n g = (zs, g') \<Longrightarrow> length zs = n"
  by (induction n arbitrary: g zs g') (auto split: prod.splits)

lemma draws_add:
  "draws d (m + n) g =
     (case draws d m g of (xs, g1) \<Rightarrow> case draws d n g1 of (ys, g2) \<Rightarrow> (xs @ ys, g2))"
  by (induction m arbitrary: g) (auto split: prod.splits)

text \<open>
  Claim C7. For non-negative sizes, \<open>initialize_weight\<close> returns; afterwards \<open>w\<close> has
  \<open>n_features\<close> coefficients, \<open>V\<close> has \<open>n_features\<close> rows and \<open>n_factors\<close> columns, the model
  is marked initialized, and every coefficient of \<open>V\<close> and \<open>w\<close> and the bias \<open>w0\<close> is
  \<open>init_std\<close> times a deviate of its own among the \<open>n_features * n_factors + n_features + 1\<close>
  deviates drawn in sequence from the generator, which is left in the state after these
  draws. That the deviates are standard normal and independent is a property of the
  distribution and the generator, which are parameters here.
\<close>

theorem initialize_weight_shape:
  assumes "0 \<le> n_features" and "0 \<le> n_factors fm"
  shows "\<exists>fm' gen' ds.
           initialize_weight nd fm n_features init_std gen = Inr (fm', gen') \<and>
           draws nd (nat n_features * nat (n_factors fm) + nat n_features + 1) gen = (ds, gen') \<and>
           length (w fm') = nat n_features \<and>
           rows (V fm') = nat n_features \<and>
           cols (V fm') = nat (n_factors fm) \<and>
           n_factors fm' = n_factors fm \<and>
           initialized fm' \<and>
           (\<forall>i<nat n_features. \<forall>j<nat (n_factors fm).
              coeff (V fm') i j = ds ! (j * nat n_features + i) * init_std) \<and>
           (\<forall>i<nat n_features.
              w fm' ! i = ds ! (nat n_features * nat (n_factors fm) + i) * init_std) \<and>
           w0 fm' = ds ! (nat n_features * nat (n_factors fm) + nat n_features) * init_std"
proof -
  let ?P = "nat n_features" and ?K = "nat (n_factors fm)"
  obtain vs gen1 where d1: "draws nd (?P * ?K) gen = (vs, gen1)"
    by (cases "draws nd (?P * ?K) gen")
  obtain ws gen2 where d2: "draws nd ?P gen1 = (ws, gen2)" by (cases "draws nd ?P gen1")
  obtain z gen3 where d3: "nd gen2 = (z, gen3)" by (cases "nd gen2")
  have lv: "length vs = ?P * ?K" using draws_length[OF d1] .
  have lw: "length ws = ?P" using draws_length[OF d2] .
  have "draws nd (?P * ?K + ?P) gen = (vs @ ws, gen2)"
    using d1 d2 by (simp add: draws_add)
  moreover have "draws nd 1 gen2 = ([z], gen3)"
    using d3 by simp
  ultimately have all: "draws nd (?P * ?K + ?P + 1) gen = (vs @ ws @ [z], gen3)"
    by (subst draws_add) simp
  have in_range: "j * ?P + i < ?P * ?K" if "i < ?P" "j < ?K" for i j
  proof -
    have "j * ?P + i < j * ?P + ?P" using that by simp
    also have "\<dots> = Suc j * ?P" by simp
    also have "\<dots> \<le> ?K * ?P" using that by (intro mult_le_mono1) simp
    finally show ?thesis by (simp add: mult.commute)
  qed
  let ?fm' = "fm\<lparr>w0 := z * init_std, w := map (\<lambda>x. x * init_std) ws,
                V := \<lparr>rows = ?P, cols = ?K, coeff = \<lambda>i j. vs ! (j * ?P + i) * init_std\<rparr>,
                initialized := True\<rparr>"
  have run: "initialize_weight nd fm n_features init_std gen = Inr (?fm', gen3)"
    using assms d1 d2 d3 by (simp add: initialize_weight_def Let_def)
  have shape: "length (w ?fm') = ?P" "rows (V ?fm') = ?P" "cols (V ?fm') = ?K"
    "n_factors ?fm' = n_factors fm" "initialized ?fm'"
    using lw by simp_all
  have cV: "\<forall>i<?P. \<forall>j<?K. coeff (V ?fm') i j = (vs @ ws @ [z]) ! (j * ?P + i) * init_std"
    using in_range lv by (simp add: nth_append)
  have cw: "\<forall>i<?P. w ?fm' ! i = (vs @ ws @ [z]) ! (?P * ?K + i) * init_std"
    using lv lw by (simp add: nth_append)
  have cw0: "w0 ?fm' = (vs @ ws @ [z]) ! (?P * ?K + ?P) * init_std"
    using lv lw by (simp add: nth_append)
  show ?thesis
    apply (rule exI[of _ ?fm'])
    apply (rule exI[of _ gen3])
    apply (rule exI[of _ "vs @ ws @ [z]"])
    apply (intro conjI)
    apply (rule run)
    apply (rule all)
    apply (rule shape)+
    apply (rule cV)
    apply (rule cw)
    apply (rule cw0)
    done
qed

lemma draws_counter_5: "draws counter_draw 5 0 = ([0, 1, 2, 3, 4], 5)"
  by (simp add: counter_draw_def numeral_eq_Suc)

theorem initialize_weight_shape_witness:
  "(0::int) \<le> 2 \<and> 0 \<le> n_factors (FM_new 1 0) \<and>
   (\<exists>fm' gen'. initialize_weight counter_draw (FM_new 1 0) 2 3 0 = Inr (fm', gen') \<and>
      gen' = 5 \<and> length (w fm') = 2 \<and> rows (V fm') = 2 \<and> cols (V fm') = 1 \<and>
      initialized fm' \<and> coeff (V fm') 0 0 = 0 \<and> coeff (V fm') 1 0 = 3 \<and>
      w fm' ! 0 = 6 \<and> w fm' ! 1 = 9 \<and> w0 fm' = 12)"
proof -
  have a: "(0::int) \<le> 2" by simp
  have b: "0 \<le> n_factors (FM_new 1 0)" by (simp add: FM_new_def)
  have k: "nat (n_factors (FM_new 1 0)) = 1" by (simp add: FM_new_def)
  from initialize_weight_shape [OF a b, of counter_draw 3 0]
  obtain fm' gen' ds where
    run: "initialize_weight counter_draw (FM_new 1 0) 2 3 0 = Inr (fm', gen')" and
    ds: "draws counter_draw (nat 2 * nat (n_factors (FM_new 1 0)) + nat 2 + 1) 0 = (ds, gen')" and
    shape: "length (w fm') = nat 2" "rows (V fm') = nat 2"
      "cols (V fm') = nat (n_factors (FM_new 1 0))" "initialized fm'" and
    cV: "\<forall>i<nat 2. \<forall>j<nat (n_factors (FM_new 1 0)).
           coeff (V fm') i j = ds ! (j * nat 2 + i) * 3" and
    cw: "\<forall>i<nat 2. w fm' ! i = ds ! (nat 2 * nat (n_factors (FM_new 1 0)) + i) * 3" and
    cw0: "w0 fm' = ds ! (nat 2 * nat (n_factors (FM_new 1 0)) + nat 2) * 3"
    by blast
  have e: "nat 2 * nat (n_factors (FM_new 1 0)) + nat 2 + 1 = 5" using k by simp
  from ds[unfolded e draws_counter_5] have d: "ds = [0, 1, 2, 3, 4]" "gen' = 5" by auto
  have "coeff (V fm') 0 0 = 0" "coeff (V fm') 1 0 = 3"
    using cV[rule_format, of 0 0] cV[rule_format, of 1 0] k d by simp_all
  moreover have "w fm' ! 0 = 6" "w fm' ! 1 = 9"
    using cw[rule_format, of 0] cw[rule_format, of 1] k d by simp_all
  moreover have "w0 fm' = 12" using cw0 k d by simp
  ultimately show ?thesis using a b run d shape k by simp
qed

section \<open>Truncated normal sampler\<close>

lemma normal_rejection_gt:
  assumes "normal_rejection draw mu gen = Some y"
  shows "mu < fst y"
proof (rule normal_rejection.raw_induct[where P = "\<lambda>draw mu gen y. mu < fst y", OF _ assms])
  fix nr :: "('a \<Rightarrow> real \<times> 'a) \<Rightarrow> real \<Rightarrow> 'a \<Rightarrow> (real \<times> 'a) option"
  fix draw mu gen y
  assume IH: "\<And>draw mu gen y. nr draw mu gen = Some y \<Longrightarrow> mu < fst y"
    and body: "(case draw gen of (z, gen') \<Rightarrow>
                  if mu < z then Some (z, gen') else nr draw mu gen') = Some y"
  obtain z0 g0 where d: "draw gen = (z0, g0)" by (cases "draw gen")
  show "mu < fst y"
  proof (cases "mu < z0")
    case True
    with body d show ?thesis by auto
  next
    case False
    with body d have "nr draw mu g0 = Some y" by simp
    then show ?thesis by (rule IH)
  qed
qed

lemma exponential_rejection_gt:
  assumes run: "exponential_rejection draw mu alpha gen = Some y"
    and lt1: "\<forall>g. fst (draw g) < 1" and pos: "0 < alpha"
  shows "mu < fst y"
proof -
  have "(\<forall>g. fst (draw g) < 1) \<longrightarrow> 0 < alpha \<longrightarrow> mu < fst y"
  proof (rule exponential_rejection.raw_induct[where
        P = "\<lambda>draw mu alpha gen y. (\<forall>g. fst (draw g) < 1) \<longrightarrow> 0 < alpha \<longrightarrow> mu < fst y",
        OF _ run], intro impI)
    fix er :: "('a \<Rightarrow> real \<times> 'a) \<Rightarrow> real \<Rightarrow> real \<Rightarrow> 'a \<Rightarrow> (real \<times> 'a) option"
    fix draw mu alpha gen y
    assume IH: "\<And>draw mu alpha gen y. er draw mu alpha gen = Some y \<Longrightarrow>
                  (\<forall>g. fst (draw g) < 1) \<longrightarrow> 0 < alpha \<longrightarrow> mu < fst y"
      and body: "(case draw gen of (u1, gen1) \<Rightarrow>
                   case draw gen1 of (u, gen2) \<Rightarrow>
                     if u1 \<le> 0 then er draw mu alpha gen2
                     else let z = - ln u1 / alpha + mu;
                              rho = exp (- (z - alpha) * (z - alpha) / 2)
                          in if u < rho then Some (z, gen2) else er draw mu alpha gen2) = Some y"
      and lt1: "\<forall>g. fst (draw g) < 1" and pos: "0 < alpha"
    obtain u1 gen1 where d1: "draw gen = (u1, gen1)" by (cases "draw gen")
    obtain u gen2 where d2: "draw gen1 = (u, gen2)" by (cases "draw gen1")
    have u1: "u1 < 1" using lt1[rule_format, of gen] d1 by simp
    show "mu < fst y"
    proof (cases "u1 \<le> 0")
      case True
      with body d1 d2 have "er draw mu alpha gen2 = Some y" by simp
      then show ?thesis using IH lt1 pos by blast
    next
      case False
      then have "ln u1 < 0" using u1 by simp
      then have gt: "0 < - ln u1 / alpha" using pos by (simp add: field_simps)
      show ?thesis
      proof (cases "u < exp (- (- ln u1 / alpha + mu - alpha) * (- ln u1 / alpha + mu - alpha) / 2)")
        case True
        with body d1 d2 False have "y = (- ln u1 / alpha + mu, gen2)"
          by (simp add: Let_def)
        then show ?thesis using gt by simp
      next
        case F2: False
        with body d1 d2 False have "er draw mu alpha gen2 = Some y" by (simp add: Let_def)
        then show ?thesis using IH lt1 pos by blast
      qed
    qed
  qed
  then show ?thesis using lt1 pos by blast
qed

lemma alpha_star_pos: "0 < (mu + sqrt (mu * mu + 4)) / 2"
proof -
  have "\<bar>mu\<bar> = sqrt (mu * mu)" by simp
  also have "\<dots> < sqrt (mu * mu + 4)" by (rule real_sqrt_less_mono) simp
  finally show ?thesis by simp
qed

lemma normal_rejection_first:
  "normal_rejection draw mu gen = Some (z, gen') \<longleftrightarrow>
   (\<exists>zs. draws draw (Suc (length zs)) gen = (zs @ [z], gen') \<and> (\<forall>y\<in>set zs. \<not> mu < y) \<and> mu < z)"
  (is "?L = ?R")
proof
  assume L: ?L
  have "\<exists>zs. draws draw (Suc (length zs)) gen = (zs @ [fst (z, gen')], snd (z, gen')) \<and>
             (\<forall>y\<in>set zs. \<not> mu < y) \<and> mu < fst (z, gen')"
  proof (rule normal_rejection.raw_induct[where
        P = "\<lambda>draw mu gen y. \<exists>zs. draws draw (Suc (length zs)) gen = (zs @ [fst y], snd y) \<and>
                (\<forall>y\<in>set zs. \<not> mu < y) \<and> mu < fst y", OF _ L])
    fix nr :: "('a \<Rightarrow> real \<times> 'a) \<Rightarrow> real \<Rightarrow> 'a \<Rightarrow> (real \<times> 'a) option"
    fix draw mu gen y
    assume IH: "\<And>draw mu gen y. nr draw mu gen = Some y \<Longrightarrow>
                 \<exists>zs. draws draw (Suc (length zs)) gen = (zs @ [fst y], snd y) \<and>
                      (\<forall>y\<in>set zs. \<not> mu < y) \<and> mu < fst y"
      and body: "(case draw gen of (z, gen') \<Rightarrow>
                  if mu < z then Some (z, gen') else nr draw mu gen') = Some y"
    obtain z0 g0 where d: "draw gen = (z0, g0)" by (cases "draw gen")
    show "\<exists>zs. draws draw (Suc (length zs)) gen = (zs @ [fst y], snd y) \<and>
               (\<forall>y\<in>set zs. \<not> mu < y) \<and> mu < fst y"
    proof (cases "mu < z0")
      case True
      with body d have y: "y = (z0, g0)" by simp
      have "draws draw (Suc (length ([]::real list))) gen = ([] @ [fst y], snd y)"
        using d y by simp
      then show ?thesis using True y by (intro exI[of _ "[]"]) simp
    next
      case False
      with body d have "nr draw mu g0 = Some y" by simp
      from IH[OF this] obtain zs where zs: "draws draw (Suc (length zs)) g0 = (zs @ [fst y], snd y)"
        "\<forall>y\<in>set zs. \<not> mu < y" "mu < fst y" by auto
      have "draws draw (Suc (length (z0 # zs))) gen = ((z0 # zs) @ [fst y], snd y)"
        using d zs(1) by simp
      then show ?thesis using zs False by (intro exI[of _ "z0 # zs"]) simp
    qed
  qed
  then show ?R by simp
next
  assume ?R
  then obtain zs where zs: "draws draw (Suc (length zs)) gen = (zs @ [z], gen')"
        "\<forall>y\<in>set zs. \<not> mu < y" "mu < z" by auto
  then show ?L
  proof (induction zs arbitrary: gen)
    case Nil
    then show ?case by (subst normal_rejection.simps) (auto split: prod.splits)
  next
    case (Cons a zs)
    obtain z0 g0 where d: "draw gen = (z0, g0)" by (cases "draw gen")
    from Cons.prems(1) d have a: "a = z0" and r: "draws draw (Suc (length zs)) g0 = (zs @ [z], gen')"
      by (auto split: prod.splits)
    have "normal_rejection draw mu g0 = Some (z, gen')"
      using Cons.IH[OF r] Cons.prems by simp
    then show ?case using d a Cons.prems(2) by (subst normal_rejection.simps) simp
  qed
qed

text \<open>
  The support of the sampler in exact arithmetic: whatever \<open>sample_truncated_normal_left\<close>
  returns is strictly greater than the threshold, in both branches, for uniform deviates in
  \<open>[0, 1)\<close>. In the first loop this is the test \<open>z > mu_minus\<close> itself. In the second loop
  it rests on \<open>- log u / alpha_star + mu_minus\<close> being computed exactly, which the
  floating-point types that \<open>Real\<close> stands for do not do.
\<close>

lemma sampler_support_exact:
  assumes "\<forall>g. 0 \<le> fst (ud g) \<and> fst (ud g) < 1"
    and "sample_truncated_normal_left nd ud gen t = Some (z, gen')"
  shows "t < z"
proof (cases "t < 0")
  case True
  with assms(2) have "normal_rejection nd t gen = Some (z, gen')"
    by (simp add: sample_truncated_normal_left_def)
  then show ?thesis using normal_rejection_gt by fastforce
next
  case False
  with assms(2)
  have "exponential_rejection ud t ((t + sqrt (t * t + 4)) / 2) gen = Some (z, gen')"
    by (simp add: sample_truncated_normal_left_def)
  moreover have "\<forall>g. fst (ud g) < 1" using assms(1) by simp
  ultimately show ?thesis using exponential_rejection_gt alpha_star_pos by fastforce
qed

lemma sample_left_at_zero:
  "sample_truncated_normal_left (const_draw 2) (const_draw (exp (- 1))) 0 0 = Some (1, 2)"
  apply (simp add: sample_truncated_normal_left_def)
  apply (subst exponential_rejection.simps)
  apply (simp add: const_draw_def)
  done

lemma normal_rejection_at_zero:
  "normal_rejection (const_draw 2) 0 0 = Some (2, 1)"
  apply (subst normal_rejection.simps)
  apply (simp add: const_draw_def)
  done

text \<open>
  Claim C4, as stated: for every threshold \<open>mu_minus \<le> 0\<close> the sampler is the plain
  rejection loop. At \<open>mu_minus = 0\<close> the test \<open>mu_minus < 0\<close> fails and the exponential
  envelope is used: with normal deviates all equal to \<open>2\<close> and uniform deviates all equal
  to \<open>exp (- 1)\<close>, the sampler returns \<open>1\<close> after two uniform draws, where plain rejection
  returns \<open>2\<close> after one normal draw.
\<close>

theorem plain_rejection_at_zero_counterexample:
  "sample_truncated_normal_left (const_draw 2) (const_draw (exp (- 1))) 0 0 = Some (1, 2) \<and>
   normal_rejection (const_draw 2) 0 0 = Some (2, 1) \<and>
   sample_truncated_normal_left (const_draw 2) (const_draw (exp (- 1))) 0 0 \<noteq>
     normal_rejection (const_draw 2) 0 0"
  by (simp add: sample_left_at_zero normal_rejection_at_zero)

text \<open>
  Claim C4, amended: for every threshold \<open>mu_minus < 0\<close> the sampler is the plain rejection
  loop on the normal deviates (the exponential envelope is not used), and the loop returns
  \<open>z\<close> exactly when \<open>z\<close> is the first deviate drawn from the generator that strictly
  exceeds \<open>mu_minus\<close>; the generator is left in the state after that draw.
\<close>

theorem plain_rejection_below_zero:
  assumes "mu_minus < 0"
  shows "sample_truncated_normal_left nd ud gen mu_minus = normal_rejection nd mu_minus gen \<and>
         (sample_truncated_normal_left nd ud gen mu_minus = Some (z, gen') \<longleftrightarrow>
            (\<exists>zs. draws nd (Suc (length zs)) gen = (zs @ [z], gen') \<and>
                  (\<forall>y\<in>set zs. \<not> mu_minus < y) \<and> mu_minus < z))"
  using assms by (simp add: sample_truncated_normal_left_def normal_rejection_first)

theorem plain_rejection_below_zero_witness:
  "(- 1::real) < 0 \<and>
   sample_truncated_normal_left ramp_draw (const_draw (exp (- 1))) 0 (- 1) = Some (0, 3)"
proof -
  have a: "(- 1::real) < 0" by simp
  have d: "draws ramp_draw (Suc (length [- 2, - 1 :: real])) 0 = ([- 2, - 1] @ [0], 3)"
    by (simp add: ramp_draw_def numeral_eq_Suc)
  have ex: "\<exists>zs. draws ramp_draw (Suc (length zs)) 0 = (zs @ [0], 3) \<and>
             (\<forall>y\<in>set zs. \<not> - 1 < y) \<and> (- 1::real) < 0"
    using d by (intro exI[of _ "[- 2, - 1]"]) simp
  note T = plain_rejection_below_zero [OF a, of ramp_draw "const_draw (exp (- 1))" 0 0 3]
  from iffD2 [OF conjunct2 [OF T] ex] a show ?thesis by (rule conjI [rotated])
qed

text \<open>
  Claim C6. The right-truncated sampler is the negation of the left-truncated sampler at
  the negated threshold, run from the same state of the generator and leaving it in the
  same state; it returns exactly when the left-truncated sampler does.
\<close>

theorem sample_right_negates_left:
  "sample_truncated_normal_right nd ud gen mu_plus =
     map_option (\<lambda>(z, gen'). (- z, gen')) (sample_truncated_normal_left nd ud gen (- mu_plus))"
  by (simp add: sample_truncated_normal_right_def split: option.splits)

section \<open>The scoring engine: what a returned score is\<close>

lemma rows_expand [simp]: "rows (expand A rels) = rows A"
  by (induction rels arbitrary: A) (simp_all add: append_block_def)

lemma cols_expand: "cols (expand A rels) = cols A + sum_list (map feature_size rels)"
  by (induction rels arbitrary: A) (simp_all add: append_block_def)

lemma cols_expand_ge: "cols A \<le> cols (expand A rels)"
  by (simp add: cols_expand)

lemma coeff_expand_low: "j < cols A \<Longrightarrow> coeff (expand A rels) i j = coeff A i j"
  by (induction rels arbitrary: A) (simp_all add: append_block_def)

lemma gather_add_Some:
  "gather_add acc j is cache = Some r \<Longrightarrow>
     length r = length acc \<and>
     (\<forall>k<length acc. r ! k = (if j \<le> k \<and> k < j + length is
                              then acc ! k + cache ! (is ! (k - j)) else acc ! k)) \<and>
     (\<forall>i\<in>set is. i < length cache)"
proof (induction "is" arbitrary: acc j)
  case Nil
  then show ?case by simp
next
  case (Cons i rest)
  from Cons.prems have j: "j < length acc" and i: "i < length cache"
    and run: "gather_add (acc[j := acc ! j + cache ! i]) (Suc j) rest cache = Some r"
    by (simp_all split: if_splits)
  note IH = Cons.IH[OF run]
  have len: "length r = length acc" using IH by simp
  have idx: "\<forall>i\<in>set (i # rest). i < length cache" using IH i by simp
  have "r ! k = (if j \<le> k \<and> k < j + length (i # rest)
                 then acc ! k + cache ! ((i # rest) ! (k - j)) else acc ! k)"
    if k: "k < length acc" for k
  proof -
    have rk: "r ! k = (if Suc j \<le> k \<and> k < Suc j + length rest
                 then (acc[j := acc ! j + cache ! i]) ! k + cache ! (rest ! (k - Suc j))
                 else (acc[j := acc ! j + cache ! i]) ! k)"
      using IH k by simp
    show ?thesis
    proof (cases "k = j")
      case True
      then show ?thesis using rk j by simp
    next
      case False
      then show ?thesis using rk k by (cases "k < j") (simp_all add: Suc_diff_Suc nth_Cons')
    qed
  qed
  then show ?case using len idx by blast
qed

lemma gather_add_full:
  assumes "gather_add acc 0 is cache = Some r" and "length is = length acc"
  shows "length r = length acc"
    and "\<And>k. k < length acc \<Longrightarrow> r ! k = acc ! k + cache ! (is ! k)"
    and "\<And>k. k < length acc \<Longrightarrow> is ! k < length cache"
  using gather_add_Some[OF assms(1)] assms(2) by (simp_all add: all_set_conv_all_nth)

lemma mat_vec_Some:
  "mat_vec M v = Some r \<Longrightarrow>
     cols M = length v \<and> length r = rows M \<and>
     (\<forall>i<rows M. r ! i = (\<Sum>j = 0..<cols M. coeff M i j * v ! j))"
  by (auto simp: mat_vec_def interv_sum_list_conv_sum_set_nat split: if_splits)

lemma segment_Some:
  "segment v start n = Some s \<Longrightarrow>
     start + n \<le> length v \<and> length s = n \<and> (\<forall>j<n. s ! j = v ! (start + j))"
  by (auto simp: segment_def split: if_splits)

lemma head_Some:
  "head v n = Some s \<Longrightarrow> n \<le> length v \<and> length s = n \<and> (\<forall>j<n. s ! j = v ! j)"
  by (auto simp: head_def split: if_splits)

lemma col_Some:
  "col M f = Some c \<Longrightarrow> f < cols M \<and> length c = rows M \<and> (\<forall>j<rows M. c ! j = coeff M j f)"
  by (auto simp: col_def split: if_splits)

lemma linear_blocks_Some:
  "linear_blocks u rels (cols A) acc = Some r \<Longrightarrow>
   length acc = rows A \<Longrightarrow>
   \<forall>rel\<in>set rels. length (original_to_block rel) = rows A \<Longrightarrow>
   cols A \<le> length u \<Longrightarrow>
     length r = rows A \<and>
     cols (expand A rels) \<le> length u \<and>
     (\<forall>i<rows A. r ! i = acc ! i +
        (\<Sum>j = cols A..<cols (expand A rels). coeff (expand A rels) i j * u ! j))"
proof (induction rels arbitrary: A acc)
  case Nil
  then show ?case by simp
next
  case (Cons rel rels)
  let ?A' = "append_block A rel"
  let ?F = "feature_size rel"
  from Cons.prems(1) obtain seg cache acc' where
    seg: "segment u (cols A) ?F = Some seg" and
    cache: "mat_vec (X rel) seg = Some cache" and
    acc': "gather_add acc 0 (original_to_block rel) cache = Some acc'" and
    rest: "linear_blocks u rels (cols A + ?F) acc' = Some r"
    by (auto simp: bind_eq_Some_conv)
  have lenmap: "length (original_to_block rel) = length acc"
    using Cons.prems(2,3) by simp
  note S = segment_Some[OF seg]
  note M = mat_vec_Some[OF cache]
  note G = gather_add_full[OF acc' lenmap]
  have cA': "cols ?A' = cols A + ?F" and rA': "rows ?A' = rows A"
    by (simp_all add: append_block_def)
  have IH: "length r = rows ?A' \<and> cols (expand ?A' rels) \<le> length u \<and>
     (\<forall>i<rows ?A'. r ! i = acc' ! i +
        (\<Sum>j = cols ?A'..<cols (expand ?A' rels). coeff (expand ?A' rels) i j * u ! j))"
    using rest Cons.prems G(1) S by (intro Cons.IH) (simp_all add: cA' rA')
  have step: "acc' ! i = acc ! i + (\<Sum>j = cols A..<cols ?A'. coeff (expand ?A' rels) i j * u ! j)"
    if i: "i < rows A" for i
  proof -
    let ?b = "original_to_block rel ! i"
    have b: "?b < rows (X rel)" using G(3)[of i] i Cons.prems(2) M by simp
    have "acc' ! i = acc ! i + cache ! ?b" using G(2)[of i] i Cons.prems(2) by simp
    also have "cache ! ?b = (\<Sum>j = 0..<?F. coeff (X rel) ?b j * seg ! j)"
      using M b S by simp
    also have "\<dots> = (\<Sum>j = 0..<?F. coeff (X rel) ?b j * u ! (cols A + j))"
      using S by simp
    also have "\<dots> = (\<Sum>j = 0..<?F. coeff ?A' i (j + cols A) * u ! (j + cols A))"
      by (simp add: append_block_def add.commute)
    also have "\<dots> = (\<Sum>j = 0 + cols A..<?F + cols A. coeff ?A' i j * u ! j)"
      by (rule sum.shift_bounds_nat_ivl[symmetric])
    also have "\<dots> = (\<Sum>j = cols A..<cols ?A'. coeff (expand ?A' rels) i j * u ! j)"
      by (simp add: cA' add.commute coeff_expand_low)
    finally show ?thesis .
  qed
  have "r ! i = acc ! i +
        (\<Sum>j = cols A..<cols (expand A (rel # rels)). coeff (expand A (rel # rels)) i j * u ! j)"
    if i: "i < rows A" for i
  proof -
    have "r ! i = acc' ! i +
        (\<Sum>j = cols ?A'..<cols (expand ?A' rels). coeff (expand ?A' rels) i j * u ! j)"
      using IH i rA' by simp
    also have "\<dots> = acc ! i + ((\<Sum>j = cols A..<cols ?A'. coeff (expand ?A' rels) i j * u ! j)
        + (\<Sum>j = cols ?A'..<cols (expand ?A' rels). coeff (expand ?A' rels) i j * u ! j))"
      using step[OF i] by simp
    also have "\<dots> = acc ! i + (\<Sum>j = cols A..<cols (expand ?A' rels). coeff (expand ?A' rels) i j * u ! j)"
      using cols_expand_ge[of ?A' rels]
      by (subst sum.atLeastLessThan_concat) (simp_all add: cA')
    finally show ?thesis by simp
  qed
  then show ?case using IH rA' by simp
qed

lemma q_blocks_linear:
  "q_blocks u rels offset acc = Some r \<Longrightarrow> linear_blocks u rels offset acc = Some r"
  by (induction rels arbitrary: offset acc)
     (auto simp: bind_eq_Some_conv map_assign_def split: if_splits)

lemma segment_square:
  "segment (square v) start n = map_option square (segment v start n)"
  by (simp add: segment_def square_def take_map drop_map)

lemma sq_block_sel [simp]:
  "X (sq_block rel) = cwiseAbs2 (X rel)"
  "feature_size (sq_block rel) = feature_size rel"
  "original_to_block (sq_block rel) = original_to_block rel"
  by (simp_all add: sq_block_def)

lemma q2_blocks_q:
  "q2_blocks u rels offset acc = q_blocks (square u) (map sq_block rels) offset acc"
proof (induction rels arbitrary: offset acc)
  case Nil
  then show ?case by simp
next
  case (Cons rel rels)
  have IH: "q2_blocks u rels (offset + feature_size rel) =
            q_blocks (square u) (map sq_block rels) (offset + feature_size rel)"
    by (intro ext Cons.IH)
  show ?case
    by (cases "segment u offset (feature_size rel)")
       (simp_all add: segment_square IH)
qed

lemma append_block_sq:
  "append_block (cwiseAbs2 A) (sq_block rel) = cwiseAbs2 (append_block A rel)"
  by (simp add: append_block_def cwiseAbs2_def fun_eq_iff)

lemma expand_sq:
  "expand (cwiseAbs2 A) (map sq_block rels) = cwiseAbs2 (expand A rels)"
  by (induction rels arbitrary: A) (simp_all add: append_block_sq)

text \<open>A product with the base matrix followed by a block loop is the product with the expanded matrix.\<close>

lemma full_product:
  assumes hd: "head u (cols A) = Some uh"
    and mv: "mat_vec A uh = Some q0"
    and lb: "linear_blocks u rels (cols A) (map g q0) = Some q"
    and maps: "\<forall>rel\<in>set rels. length (original_to_block rel) = rows A"
  shows "length q = rows A"
    and "cols (expand A rels) \<le> length u"
    and "\<And>i. i < rows A \<Longrightarrow>
           q ! i = g (\<Sum>j = 0..<cols A. coeff A i j * u ! j) +
                   (\<Sum>j = cols A..<cols (expand A rels). coeff (expand A rels) i j * u ! j)"
proof -
  note H = head_Some[OF hd]
  note M = mat_vec_Some[OF mv]
  have L: "length q = rows A \<and> cols (expand A rels) \<le> length u \<and>
     (\<forall>i<rows A. q ! i = map g q0 ! i +
        (\<Sum>j = cols A..<cols (expand A rels). coeff (expand A rels) i j * u ! j))"
  proof (rule linear_blocks_Some[OF lb])
    show "length (map g q0) = rows A" using M by simp
    show "\<forall>rel\<in>set rels. length (original_to_block rel) = rows A" by (rule maps)
    show "cols A \<le> length u" using H by simp
  qed
  show "length q = rows A" "cols (expand A rels) \<le> length u" using L by simp_all
  fix i assume i: "i < rows A"
  have "q0 ! i = (\<Sum>j = 0..<cols A. coeff A i j * uh ! j)" using M i by simp
  also have "\<dots> = (\<Sum>j = 0..<cols A. coeff A i j * u ! j)" using H by simp
  finally show "q ! i = g (\<Sum>j = 0..<cols A. coeff A i j * u ! j) +
                   (\<Sum>j = cols A..<cols (expand A rels). coeff (expand A rels) i j * u ! j)"
    using L i M by simp
qed

lemma sum_expand_split:
  "(\<Sum>j = 0..<cols A. coeff A i j * h j) +
   (\<Sum>j = cols A..<cols (expand A rels). coeff (expand A rels) i j * h j) =
   (\<Sum>j = 0..<cols (expand A rels). coeff (expand A rels) i j * h j)"
proof -
  have "(\<Sum>j = 0..<cols A. coeff A i j * h j) =
        (\<Sum>j = 0..<cols A. coeff (expand A rels) i j * h j)"
    by (simp add: coeff_expand_low)
  then show ?thesis
    using cols_expand_ge[of A rels] by (simp add: sum.atLeastLessThan_concat)
qed

lemma head_square: "head (square v) n = map_option square (head v n)"
  by (simp add: head_def square_def take_map)

lemma cwiseAbs2_sel [simp]:
  "rows (cwiseAbs2 A) = rows A" "cols (cwiseAbs2 A) = cols A"
  "coeff (cwiseAbs2 A) i j = coeff A i j * coeff A i j"
  by (simp_all add: cwiseAbs2_def)

lemma cwise_add_Some:
  "cwise_add a b = Some r \<Longrightarrow>
     length a = length b \<and> length r = length a \<and> (\<forall>i<length a. r ! i = a ! i + b ! i)"
  by (auto simp: cwise_add_def split: if_splits)

lemma cwise_sub_Some:
  "cwise_sub a b = Some r \<Longrightarrow>
     length a = length b \<and> length r = length a \<and> (\<forall>i<length a. r ! i = a ! i - b ! i)"
  by (auto simp: cwise_sub_def split: if_splits)

lemma product_with_expand:
  assumes hd: "head u (cols A) = Some uh"
    and mv: "mat_vec A uh = Some q0"
    and lb: "linear_blocks u rels (cols A) q0 = Some q"
    and maps: "\<forall>rel\<in>set rels. length (original_to_block rel) = rows A"
  shows "length q = rows A"
    and "cols (expand A rels) \<le> length u"
    and "\<And>i. i < rows A \<Longrightarrow>
           q ! i = (\<Sum>j = 0..<cols (expand A rels). coeff (expand A rels) i j * u ! j)"
proof -
  have lb': "linear_blocks u rels (cols A) (map (\<lambda>x. x) q0) = Some q" using lb by simp
  note F = full_product[OF hd mv lb' maps]
  show "length q = rows A" "cols (expand A rels) \<le> length u" using F(1,2) .
  fix i assume "i < rows A"
  from F(3)[OF this] show "q ! i = (\<Sum>j = 0..<cols (expand A rels). coeff (expand A rels) i j * u ! j)"
    by (simp add: sum_expand_split)
qed

lemma factor_step_Some:
  assumes run: "factor_step fm Xb rels f acc = Some r"
    and acc: "length acc = rows Xb"
    and maps: "\<forall>rel\<in>set rels. length (original_to_block rel) = rows Xb"
  shows "length r = rows Xb"
    and "f < cols (V fm)"
    and "cols (expand Xb rels) \<le> rows (V fm)"
    and "\<And>i. i < rows Xb \<Longrightarrow>
           r ! i = acc ! i
             + (\<Sum>j = 0..<cols (expand Xb rels). coeff (expand Xb rels) i j * coeff (V fm) j f)\<^sup>2 * (1 / 2)
             - (\<Sum>j = 0..<cols (expand Xb rels).
                  (coeff (expand Xb rels) i j)\<^sup>2 * (coeff (V fm) j f)\<^sup>2) * (1 / 2)"
proof -
  let ?E = "expand Xb rels"
  from run obtain vcol vhead q0 q result1 c0 c where
    vcol: "col (V fm) f = Some vcol" and
    vhead: "head vcol (cols Xb) = Some vhead" and
    q0: "mat_vec Xb vhead = Some q0" and
    q: "q_blocks vcol rels (cols Xb) q0 = Some q" and
    result1: "cwise_add acc (map (\<lambda>x. x * (1 / 2)) (square q)) = Some result1" and
    c0: "mat_vec (cwiseAbs2 Xb) (square vhead) = Some c0" and
    c: "q2_blocks vcol rels (cols Xb) c0 = Some c" and
    r: "cwise_sub result1 (map (\<lambda>x. x * (1 / 2)) c) = Some r"
    unfolding factor_step_def bind_eq_Some_conv by blast
  note C = col_Some[OF vcol]
  show f: "f < cols (V fm)" using C by simp
  note Q = product_with_expand[OF vhead q0 q_blocks_linear[OF q] maps]
  show E: "cols ?E \<le> rows (V fm)" using Q(2) C by simp
  have vhead2: "head (square vcol) (cols (cwiseAbs2 Xb)) = Some (square vhead)"
    using vhead by (simp add: head_square)
  have c': "linear_blocks (square vcol) (map sq_block rels) (cols (cwiseAbs2 Xb)) c0 = Some c"
    using c by (simp add: q2_blocks_q q_blocks_linear)
  have maps2: "\<forall>rel\<in>set (map sq_block rels). length (original_to_block rel) = rows (cwiseAbs2 Xb)"
    using maps by simp
  note C2 = product_with_expand[OF vhead2 c0 c' maps2, unfolded expand_sq cwiseAbs2_sel]
  note R1 = cwise_add_Some[OF result1]
  note R = cwise_sub_Some[OF r]
  show "length r = rows Xb" using R R1 acc by simp
  fix i assume i: "i < rows Xb"
  have qi: "q ! i = (\<Sum>j = 0..<cols ?E. coeff ?E i j * coeff (V fm) j f)"
    using Q(3)[OF i] E C by simp
  have ci: "c ! i = (\<Sum>j = 0..<cols ?E. (coeff ?E i j)\<^sup>2 * (coeff (V fm) j f)\<^sup>2)"
  proof -
    have "c ! i = (\<Sum>j = 0..<cols ?E. coeff ?E i j * coeff ?E i j * square vcol ! j)"
      using C2(3)[OF i] .
    also have "\<dots> = (\<Sum>j = 0..<cols ?E. (coeff ?E i j)\<^sup>2 * (coeff (V fm) j f)\<^sup>2)"
      using E C by (intro sum.cong) (simp_all add: square_def power2_eq_square)
    finally show ?thesis .
  qed
  have "r ! i = result1 ! i - c ! i * (1 / 2)"
    using R R1 acc i C2(1) by simp
  also have "result1 ! i = acc ! i + q ! i * q ! i * (1 / 2)"
    using R1 acc i Q(1) by (simp add: square_def)
  finally show "r ! i = acc ! i
             + (\<Sum>j = 0..<cols ?E. coeff ?E i j * coeff (V fm) j f)\<^sup>2 * (1 / 2)
             - (\<Sum>j = 0..<cols ?E. (coeff ?E i j)\<^sup>2 * (coeff (V fm) j f)\<^sup>2) * (1 / 2)"
    by (simp add: qi ci power2_eq_square)
qed

lemma factor_loop_Some:
  "factor_loop fm Xb rels fs acc = Some r \<Longrightarrow>
   length acc = rows Xb \<Longrightarrow>
   \<forall>rel\<in>set rels. length (original_to_block rel) = rows Xb \<Longrightarrow>
     length r = rows Xb \<and>
     (\<forall>i<rows Xb. r ! i = acc ! i + (\<Sum>f\<leftarrow>fs.
         (\<Sum>j = 0..<cols (expand Xb rels). coeff (expand Xb rels) i j * coeff (V fm) j f)\<^sup>2 * (1 / 2)
       - (\<Sum>j = 0..<cols (expand Xb rels).
            (coeff (expand Xb rels) i j)\<^sup>2 * (coeff (V fm) j f)\<^sup>2) * (1 / 2)))"
proof (induction fs arbitrary: acc)
  case Nil
  then show ?case by simp
next
  case (Cons f fs)
  from Cons.prems(1) obtain acc' where
    step: "factor_step fm Xb rels f acc = Some acc'" and
    rest: "factor_loop fm Xb rels fs acc' = Some r"
    by (auto simp: bind_eq_Some_conv)
  note S = factor_step_Some[OF step Cons.prems(2,3)]
  note IH = Cons.IH[OF rest S(1) Cons.prems(3)]
  show ?case using IH S(4) by (simp add: algebra_simps)
qed

lemma sum_list_half:
  "(\<Sum>f\<leftarrow>fs. a f * (1 / 2) - b f * (1 / 2)) = (1 / 2) * (\<Sum>f\<leftarrow>fs. a f - b f :: real)"
  by (induction fs) (simp_all add: algebra_simps)

lemma score_body_Some:
  assumes run: "score_body fm Xb rels = Some r"
    and maps: "\<forall>rel\<in>set rels. length (original_to_block rel) = rows Xb"
  shows "r = direct_score (w0 fm) (w fm) (V fm) (nat (n_factors fm)) (expand Xb rels)"
proof -
  let ?E = "expand Xb rels"
  from run obtain whead xw lin where
    whead: "head (w fm) (cols Xb) = Some whead" and
    xw: "mat_vec Xb whead = Some xw" and
    lin: "linear_blocks (w fm) rels (cols Xb) (map (\<lambda>x. w0 fm + x) xw) = Some lin" and
    loop: "factor_loop fm Xb rels [0..<nat (n_factors fm)] lin = Some r"
    unfolding score_body_def bind_eq_Some_conv by blast
  note L = full_product[OF whead xw lin maps]
  note F = factor_loop_Some[OF loop L(1) maps]
  have len: "length r = length (direct_score (w0 fm) (w fm) (V fm) (nat (n_factors fm)) ?E)"
    using F by (simp add: direct_score_def)
  show ?thesis
  proof (rule nth_equalityI[OF len])
    fix i assume "i < length r"
    then have i: "i < rows Xb" using F by simp
    have li: "lin ! i = w0 fm + (\<Sum>j = 0..<cols ?E. coeff ?E i j * w fm ! j)"
      using L(3)[OF i] by (simp add: sum_expand_split[symmetric] add.assoc)
    have "r ! i = lin ! i + (\<Sum>f\<leftarrow>[0..<nat (n_factors fm)].
         (\<Sum>j = 0..<cols ?E. coeff ?E i j * coeff (V fm) j f)\<^sup>2 * (1 / 2)
       - (\<Sum>j = 0..<cols ?E. (coeff ?E i j)\<^sup>2 * (coeff (V fm) j f)\<^sup>2) * (1 / 2))"
      using F i by blast
    also have "\<dots> = lin ! i + (1 / 2) * (\<Sum>f\<leftarrow>[0..<nat (n_factors fm)].
         (\<Sum>j = 0..<cols ?E. coeff ?E i j * coeff (V fm) j f)\<^sup>2
       - (\<Sum>j = 0..<cols ?E. (coeff ?E i j)\<^sup>2 * (coeff (V fm) j f)\<^sup>2))"
      by (simp only: sum_list_half)
    also have "\<dots> = direct_score (w0 fm) (w fm) (V fm) (nat (n_factors fm)) ?E ! i"
      using i by (simp add: direct_score_def li interv_sum_list_conv_sum_set_nat)
    finally show "r ! i = direct_score (w0 fm) (w fm) (V fm) (nat (n_factors fm)) ?E ! i" .
  qed
qed

lemma predict_score_Inr:
  assumes "predict_score fm Xb rels = Inr r"
  shows "r = direct_score (w0 fm) (w fm) (V fm) (nat (n_factors fm)) (expand Xb rels)"
proof -
  from assms have maps: "\<forall>rel\<in>set rels. length (original_to_block rel) = rows Xb"
    and run: "score_body fm Xb rels = Some r"
    by (auto simp: predict_score_def check_relations_eq split: if_splits option.splits)
  from score_body_Some[OF run maps] show ?thesis .
qed

lemma coeff_expand_block:
  "k < length rels \<Longrightarrow> j < feature_size (rels ! k) \<Longrightarrow>
     coeff (expand A rels) i (cols A + sum_list (map feature_size (take k rels)) + j) =
     coeff (X (rels ! k)) (original_to_block (rels ! k) ! i) j"
proof (induction rels arbitrary: A k)
  case Nil
  then show ?case by simp
next
  case (Cons rel rels)
  show ?case
  proof (cases k)
    case 0
    with Cons.prems have "cols A + j < cols (append_block A rel)"
      by (simp add: append_block_def)
    then have "coeff (expand (append_block A rel) rels) i (cols A + j) =
               coeff (append_block A rel) i (cols A + j)"
      by (rule coeff_expand_low)
    then show ?thesis using 0 by (simp add: append_block_def)
  next
    case (Suc k')
    with Cons.prems have k': "k' < length rels" and j: "j < feature_size (rels ! k')"
      by simp_all
    have e: "cols A + sum_list (map feature_size (take k (rel # rels))) + j =
          cols (append_block A rel) + sum_list (map feature_size (take k' rels)) + j"
      using Suc by (simp add: append_block_def)
    have "coeff (expand A (rel # rels)) i
            (cols A + sum_list (map feature_size (take k (rel # rels))) + j) =
          coeff (expand (append_block A rel) rels) i
            (cols (append_block A rel) + sum_list (map feature_size (take k' rels)) + j)"
      by (simp only: e expand.simps)
    also have "\<dots> = coeff (X (rels ! k')) (original_to_block (rels ! k') ! i) j"
      by (rule Cons.IH[OF k' j])
    finally show ?thesis using Suc by simp
  qed
qed


section \<open>The scoring engine: when a score is returned\<close>

lemma gather_add_ok:
  "j + length is \<le> length acc \<Longrightarrow> \<forall>i\<in>set is. i < length cache \<Longrightarrow>
     \<exists>r. gather_add acc j is cache = Some r"
  by (induction "is" arbitrary: acc j) simp_all

lemma linear_blocks_ok:
  "\<forall>rel\<in>set rels. block_fits (length acc) rel \<Longrightarrow>
   offset + sum_list (map feature_size rels) \<le> length u \<Longrightarrow>
     \<exists>r. linear_blocks u rels offset acc = Some r"
proof (induction rels arbitrary: offset acc)
  case Nil
  then show ?case by simp
next
  case (Cons rel rels)
  let ?F = "feature_size rel"
  have fit: "block_fits (length acc) rel" using Cons.prems(1) by simp
  have seg: "segment u offset ?F = Some (take ?F (drop offset u))"
    using Cons.prems(2) by (simp add: segment_def)
  obtain cache where cache: "mat_vec (X rel) (take ?F (drop offset u)) = Some cache"
    and lc: "length cache = rows (X rel)"
    using fit Cons.prems(2) by (simp add: mat_vec_def block_fits_def)
  obtain acc' where acc': "gather_add acc 0 (original_to_block rel) cache = Some acc'"
    using gather_add_ok[of 0 "original_to_block rel" acc cache] fit lc
    by (auto simp: block_fits_def)
  have "length acc' = length acc" using gather_add_Some[OF acc'] by simp
  then obtain r where "linear_blocks u rels (offset + ?F) acc' = Some r"
    using Cons.IH[of acc' "offset + ?F"] Cons.prems by (auto simp: add.assoc)
  then show ?case using seg cache acc' by simp
qed

lemma q_blocks_ok:
  "\<forall>rel\<in>set rels. block_fits (length acc) rel \<and> rows (X rel) = feature_size rel \<Longrightarrow>
   offset + sum_list (map feature_size rels) \<le> length u \<Longrightarrow>
     \<exists>r. q_blocks u rels offset acc = Some r"
proof (induction rels arbitrary: offset acc)
  case Nil
  then show ?case by simp
next
  case (Cons rel rels)
  let ?F = "feature_size rel"
  have fit: "block_fits (length acc) rel" and sq: "rows (X rel) = ?F"
    using Cons.prems(1) by simp_all
  have seg: "segment u offset ?F = Some (take ?F (drop offset u))"
    using Cons.prems(2) by (simp add: segment_def)
  obtain cache where cache: "mat_vec (X rel) (take ?F (drop offset u)) = Some cache"
    and lc: "length cache = rows (X rel)"
    using fit Cons.prems(2) by (simp add: mat_vec_def block_fits_def)
  have ma: "map_assign ?F cache = Some cache" using lc sq by (simp add: map_assign_def)
  obtain acc' where acc': "gather_add acc 0 (original_to_block rel) cache = Some acc'"
    using gather_add_ok[of 0 "original_to_block rel" acc cache] fit lc
    by (auto simp: block_fits_def)
  have "length acc' = length acc" using gather_add_Some[OF acc'] by simp
  then obtain r where "q_blocks u rels (offset + ?F) acc' = Some r"
    using Cons.IH[of acc' "offset + ?F"] Cons.prems by (auto simp: add.assoc)
  then show ?case using seg cache ma acc' by simp
qed

lemma block_fits_sq [simp]: "block_fits N (sq_block rel) = block_fits N rel"
  by (simp add: block_fits_def)

lemma factor_step_ok:
  assumes f: "f < cols (V fm)"
    and wide: "cols Xb + sum_list (map feature_size rels) \<le> rows (V fm)"
    and acc: "length acc = rows Xb"
    and fits: "\<forall>rel\<in>set rels. block_fits (rows Xb) rel \<and> rows (X rel) = feature_size rel"
  shows "\<exists>r. factor_step fm Xb rels f acc = Some r"
proof -
  let ?vcol = "map (\<lambda>i. coeff (V fm) i f) [0..<rows (V fm)]"
  let ?vhead = "take (cols Xb) ?vcol"
  have vcol: "col (V fm) f = Some ?vcol" using f by (simp add: col_def)
  have vhead: "head ?vcol (cols Xb) = Some ?vhead" using wide by (simp add: head_def)
  obtain q0 where q0: "mat_vec Xb ?vhead = Some q0" and lq0: "length q0 = rows Xb"
    using wide by (simp add: mat_vec_def)
  obtain q where q: "q_blocks ?vcol rels (cols Xb) q0 = Some q"
    using q_blocks_ok[of rels q0 "cols Xb" ?vcol] fits wide lq0 by auto
  have lq: "length q = rows Xb"
    using product_with_expand(1)[OF vhead q0 q_blocks_linear[OF q]] fits
    by (simp add: block_fits_def)
  obtain r1 where r1: "cwise_add acc (map (\<lambda>x. x * (1 / 2)) (square q)) = Some r1"
    and lr1: "length r1 = rows Xb"
    using acc lq by (simp add: cwise_add_def square_def)
  obtain c0 where c0: "mat_vec (cwiseAbs2 Xb) (square ?vhead) = Some c0"
    and lc0: "length c0 = rows Xb"
    using wide by (simp add: mat_vec_def square_def)
  have "\<exists>c. q_blocks (square ?vcol) (map sq_block rels) (cols Xb) c0 = Some c"
    using fits wide lc0 by (intro q_blocks_ok) (simp_all add: square_def comp_def)
  then obtain c where c: "q2_blocks ?vcol rels (cols Xb) c0 = Some c"
    by (auto simp: q2_blocks_q)
  have vhead2: "head (square ?vcol) (cols (cwiseAbs2 Xb)) = Some (square ?vhead)"
    using vhead by (simp add: head_square)
  have c': "linear_blocks (square ?vcol) (map sq_block rels) (cols (cwiseAbs2 Xb)) c0 = Some c"
    using c by (simp add: q2_blocks_q q_blocks_linear)
  have lc: "length c = rows Xb"
    using product_with_expand(1)[OF vhead2 c0 c'] fits by (simp add: block_fits_def)
  obtain r where "cwise_sub r1 (map (\<lambda>x. x * (1 / 2)) c) = Some r"
    using lr1 lc by (simp add: cwise_sub_def)
  then show ?thesis
    using vcol vhead q0 q r1 c0 c by (simp add: factor_step_def)
qed

lemma factor_loop_ok:
  assumes "\<forall>f\<in>set fs. f < cols (V fm)"
    and "fs \<noteq> [] \<longrightarrow> cols Xb + sum_list (map feature_size rels) \<le> rows (V fm) \<and>
           (\<forall>rel\<in>set rels. rows (X rel) = feature_size rel)"
    and "length acc = rows Xb"
    and "\<forall>rel\<in>set rels. block_fits (rows Xb) rel"
  shows "\<exists>r. factor_loop fm Xb rels fs acc = Some r"
  using assms
proof (induction fs arbitrary: acc)
  case Nil
  then show ?case by simp
next
  case (Cons f fs)
  have "\<exists>r. factor_step fm Xb rels f acc = Some r"
    using Cons.prems by (intro factor_step_ok) simp_all
  then obtain acc' where step: "factor_step fm Xb rels f acc = Some acc'" by blast
  have "length acc' = rows Xb"
    using factor_step_Some(1)[OF step] Cons.prems by (simp add: block_fits_def)
  then have "\<exists>r. factor_loop fm Xb rels fs acc' = Some r"
    using Cons.prems by (intro Cons.IH) auto
  then show ?case using step by simp
qed

lemma score_body_ok:
  assumes "scorable fm Xb rels"
  shows "\<exists>r. score_body fm Xb rels = Some r"
proof -
  let ?whead = "take (cols Xb) (w fm)"
  have whead: "head (w fm) (cols Xb) = Some ?whead"
    using assms by (simp add: head_def scorable_def)
  obtain xw where xw: "mat_vec Xb ?whead = Some xw" and lxw: "length xw = rows Xb"
    using assms by (simp add: mat_vec_def scorable_def)
  have "\<exists>lin. linear_blocks (w fm) rels (cols Xb) (map (\<lambda>x. w0 fm + x) xw) = Some lin"
    using assms lxw by (intro linear_blocks_ok) (simp_all add: scorable_def)
  then obtain lin where lin: "linear_blocks (w fm) rels (cols Xb) (map (\<lambda>x. w0 fm + x) xw) = Some lin"
    by blast
  have llin: "length lin = rows Xb"
    using full_product(1)[OF whead xw lin] assms by (simp add: scorable_def block_fits_def)
  have "\<exists>r. factor_loop fm Xb rels [0..<nat (n_factors fm)] lin = Some r"
    using assms llin by (intro factor_loop_ok) (auto simp: scorable_def)
  then show ?thesis using whead xw lin by (auto simp: score_body_def)
qed

lemma predict_score_scorable:
  assumes "scorable fm Xb rels"
  shows "predict_score fm Xb rels =
           Inr (direct_score (w0 fm) (w fm) (V fm) (nat (n_factors fm)) (expand Xb rels))"
proof -
  have maps: "\<forall>rel\<in>set rels. length (original_to_block rel) = rows Xb"
    using assms by (simp add: scorable_def block_fits_def)
  obtain r where r: "score_body fm Xb rels = Some r" using score_body_ok[OF assms] by blast
  have "r = direct_score (w0 fm) (w fm) (V fm) (nat (n_factors fm)) (expand Xb rels)"
    using score_body_Some[OF r maps] .
  then show ?thesis
    using assms maps r by (simp add: predict_score_def check_relations_eq scorable_def)
qed

section \<open>The frame of a call\<close>

lemma linear_blocks_st_eq:
  "linear_blocks_st rels offset s =
     map_option (\<lambda>r. s\<lparr>result := r\<rparr>) (linear_blocks (w (this s)) rels offset (result s))"
proof (induction rels arbitrary: offset s)
  case Nil
  then show ?case by simp
next
  case (Cons rel rels)
  show ?case
    by (auto simp: Cons.IH split: bind_splits)
qed

lemma q_blocks_st_eq:
  assumes "\<forall>rel\<in>set rels. feature_size rel \<le> length (buffer_cache s)"
  shows "case q_blocks_st vcol rels offset s of
           None \<Rightarrow> q_blocks vcol rels offset (q_cache s) = None
         | Some s' \<Rightarrow> q_blocks vcol rels offset (q_cache s) = Some (q_cache s') \<and>
                      s' = s\<lparr>q_cache := q_cache s', buffer_cache := buffer_cache s'\<rparr> \<and>
                      length (buffer_cache s') = length (buffer_cache s)"
  using assms
proof (induction rels arbitrary: offset s)
  case Nil
  then show ?case by simp
next
  case (Cons rel rels)
  let ?F = "feature_size rel"
  show ?case
  proof (cases "segment vcol offset ?F")
    case None
    then show ?thesis by simp
  next
    case (Some seg)
    show ?thesis
    proof (cases "mat_vec (X rel) seg")
      case None
      then show ?thesis using Some by simp
    next
      case prod: (Some prod)
      show ?thesis
      proof (cases "length prod = ?F")
        case False
        then show ?thesis using Some prod by (simp add: map_store_def map_assign_def)
      next
        case True
        have F: "?F \<le> length (buffer_cache s)" using Cons.prems by simp
        let ?buffer = "prod @ drop ?F (buffer_cache s)"
        have st: "map_store (buffer_cache s) ?F prod = Some ?buffer"
          using True F by (simp add: map_store_def)
        have ma: "map_assign ?F prod = Some prod" using True by (simp add: map_assign_def)
        have tk: "take ?F ?buffer = prod" using True by simp
        show ?thesis
        proof (cases "gather_add (q_cache s) 0 (original_to_block rel) prod")
          case None
          then show ?thesis using Some prod st ma tk by simp
        next
          case q: (Some q)
          let ?s1 = "s\<lparr>q_cache := q, buffer_cache := ?buffer\<rparr>"
          have pre: "\<forall>rel\<in>set rels. feature_size rel \<le> length (buffer_cache ?s1)"
            using Cons.prems True F by simp
          note IH = Cons.IH[OF pre, of "offset + ?F"]
          have l: "q_blocks_st vcol (rel # rels) offset s = q_blocks_st vcol rels (offset + ?F) ?s1"
            using Some prod st tk q by simp
          have r: "q_blocks vcol (rel # rels) offset (q_cache s) = q_blocks vcol rels (offset + ?F) q"
            using Some prod ma q by simp
          show ?thesis
            using IH True F unfolding l r
            by (auto split: option.splits)
        qed
      qed
    qed
  qed
qed

lemma q_blocks_st_Some:
  assumes "\<forall>rel\<in>set rels. feature_size rel \<le> length (buffer_cache s)"
    and "q_blocks_st vcol rels offset s = Some s'"
  shows "q_blocks vcol rels offset (q_cache s) = Some (q_cache s')"
    and "s' = s\<lparr>q_cache := q_cache s', buffer_cache := buffer_cache s'\<rparr>"
    and "length (buffer_cache s') = length (buffer_cache s)"
  using q_blocks_st_eq[OF assms(1), of vcol offset] assms(2) by simp_all

lemma q_blocks_st_None:
  assumes "\<forall>rel\<in>set rels. feature_size rel \<le> length (buffer_cache s)"
    and "q_blocks_st vcol rels offset s = None"
  shows "q_blocks vcol rels offset (q_cache s) = None"
  using q_blocks_st_eq[OF assms(1), of vcol offset] assms(2) by simp

lemma q2_blocks_st_q:
  "q2_blocks_st vcol rels offset s = q_blocks_st (square vcol) (map sq_block rels) offset s"
proof (induction rels arbitrary: offset s)
  case Nil
  then show ?case by simp
next
  case (Cons rel rels)
  have IH: "q2_blocks_st vcol rels (offset + feature_size rel) =
            q_blocks_st (square vcol) (map sq_block rels) (offset + feature_size rel)"
    by (intro ext Cons.IH)
  show ?case
    by (cases "segment vcol offset (feature_size rel)")
       (simp_all add: segment_square IH)
qed

lemma q2_blocks_st_Some:
  assumes "\<forall>rel\<in>set rels. feature_size rel \<le> length (buffer_cache s)"
    and "q2_blocks_st vcol rels offset s = Some s'"
  shows "q2_blocks vcol rels offset (q_cache s) = Some (q_cache s')"
    and "s' = s\<lparr>q_cache := q_cache s', buffer_cache := buffer_cache s'\<rparr>"
    and "length (buffer_cache s') = length (buffer_cache s)"
proof -
  have b: "\<forall>rel\<in>set (map sq_block rels). feature_size rel \<le> length (buffer_cache s)"
    using assms(1) by simp
  have r: "q_blocks_st (square vcol) (map sq_block rels) offset s = Some s'"
    using assms(2) by (simp add: q2_blocks_st_q)
  show "q2_blocks vcol rels offset (q_cache s) = Some (q_cache s')"
    using q_blocks_st_Some(1)[OF b r] by (simp add: q2_blocks_q)
  show "s' = s\<lparr>q_cache := q_cache s', buffer_cache := buffer_cache s'\<rparr>"
    using q_blocks_st_Some(2)[OF b r] .
  show "length (buffer_cache s') = length (buffer_cache s)"
    using q_blocks_st_Some(3)[OF b r] .
qed

lemma q2_blocks_st_None:
  assumes "\<forall>rel\<in>set rels. feature_size rel \<le> length (buffer_cache s)"
    and "q2_blocks_st vcol rels offset s = None"
  shows "q2_blocks vcol rels offset (q_cache s) = None"
proof -
  have b: "\<forall>rel\<in>set (map sq_block rels). feature_size rel \<le> length (buffer_cache s)"
    using assms(1) by simp
  have r: "q_blocks_st (square vcol) (map sq_block rels) offset s = None"
    using assms(2) by (simp add: q2_blocks_st_q)
  show ?thesis using q_blocks_st_None[OF b r] by (simp add: q2_blocks_q)
qed

lemma factor_step_st_eq:
  assumes buf: "\<forall>rel\<in>set (arg_relations s). feature_size rel \<le> length (buffer_cache s)"
  shows "case factor_step_st f s of
           None \<Rightarrow> factor_step (this s) (arg_X s) (arg_relations s) f (result s) = None
         | Some s' \<Rightarrow>
             factor_step (this s) (arg_X s) (arg_relations s) f (result s) = Some (result s') \<and>
             s' = s\<lparr>result := result s', q_cache := q_cache s',
                    buffer_cache := buffer_cache s'\<rparr> \<and>
             length (buffer_cache s') = length (buffer_cache s)"
proof (cases "col (V (this s)) f")
  case None
  then show ?thesis by (simp add: factor_step_st_def factor_step_def)
next
  case vcol: (Some vcol)
  show ?thesis
  proof (cases "head vcol (cols (arg_X s))")
    case None
    then show ?thesis using vcol by (simp add: factor_step_st_def factor_step_def)
  next
    case vhead: (Some vhead)
    show ?thesis
    proof (cases "mat_vec (arg_X s) vhead")
      case None
      then show ?thesis using vcol vhead by (simp add: factor_step_st_def factor_step_def)
    next
      case q0: (Some q0)
      let ?s0 = "s\<lparr>q_cache := q0\<rparr>"
      have b0: "\<forall>rel\<in>set (arg_relations s). feature_size rel \<le> length (buffer_cache ?s0)"
        using buf by simp
      show ?thesis
      proof (cases "q_blocks_st vcol (arg_relations s) (cols (arg_X s)) ?s0")
        case None
        from q_blocks_st_None[OF b0 None]
        have "q_blocks vcol (arg_relations s) (cols (arg_X s)) q0 = None" by simp
        then show ?thesis
          using vcol vhead q0 None by (simp add: factor_step_st_def factor_step_def)
      next
        case s1: (Some s1)
        note Q = q_blocks_st_Some[OF b0 s1]
        have q: "q_blocks vcol (arg_relations s) (cols (arg_X s)) q0 = Some (q_cache s1)"
          using Q(1) by simp
        have s1_eq: "s1 = s\<lparr>q_cache := q_cache s1, buffer_cache := buffer_cache s1\<rparr>"
          using Q(2) by simp
        have f1: "this s1 = this s" "arg_X s1 = arg_X s" "arg_relations s1 = arg_relations s"
          "result s1 = result s"
          by (subst s1_eq, simp)+
        have l1: "length (buffer_cache s1) = length (buffer_cache s)" using Q(3) by simp
        show ?thesis
        proof (cases "cwise_add (result s) (map (\<lambda>x. x * (1 / 2)) (square (q_cache s1)))")
          case None
          then show ?thesis
            using vcol vhead q0 s1 q f1
            by (simp add: factor_step_st_def factor_step_def)
        next
          case r1: (Some r1)
          show ?thesis
          proof (cases "mat_vec (cwiseAbs2 (arg_X s)) (square vhead)")
            case None
            then show ?thesis
              using vcol vhead q0 s1 q f1 r1
              by (simp add: factor_step_st_def factor_step_def)
          next
            case c0: (Some c0)
            let ?s1' = "s1\<lparr>result := r1, q_cache := c0\<rparr>"
            have b1: "\<forall>rel\<in>set (arg_relations s). feature_size rel \<le> length (buffer_cache ?s1')"
              using buf l1 by simp
            show ?thesis
            proof (cases "q2_blocks_st vcol (arg_relations s) (cols (arg_X s)) ?s1'")
              case None
              from q2_blocks_st_None[OF b1 None]
              have "q2_blocks vcol (arg_relations s) (cols (arg_X s)) c0 = None" by simp
              then show ?thesis
                using vcol vhead q0 s1 q f1 r1 c0 None
                by (simp add: factor_step_st_def factor_step_def)
            next
              case s2: (Some s2)
              note Q2 = q2_blocks_st_Some[OF b1 s2]
              have c: "q2_blocks vcol (arg_relations s) (cols (arg_X s)) c0 = Some (q_cache s2)"
                using Q2(1) by simp
              have s2_eq: "s2 = s\<lparr>result := r1, q_cache := q_cache s2,
                                   buffer_cache := buffer_cache s2\<rparr>"
                using Q2(2) by (subst (asm) s1_eq) simp
              have r2s: "result s2 = r1" by (subst s2_eq) simp
              have l2: "length (buffer_cache s2) = length (buffer_cache s)"
                using Q2(3) l1 by simp
              show ?thesis
              proof (cases "cwise_sub r1 (map (\<lambda>x. x * (1 / 2)) (q_cache s2))")
                case None
                then show ?thesis
                  using vcol vhead q0 s1 q f1 r1 c0 s2 c r2s
                  by (simp add: factor_step_st_def factor_step_def)
              next
                case r2: (Some r2)
                have st: "factor_step_st f s = Some (s2\<lparr>result := r2\<rparr>)"
                  using vcol vhead q0 s1 f1 r1 c0 s2 r2s r2
                  by (simp add: factor_step_st_def)
                have pu: "factor_step (this s) (arg_X s) (arg_relations s) f (result s) = Some r2"
                  using vcol vhead q0 q r1 c0 c r2
                  by (simp add: factor_step_def)
                have e: "s2\<lparr>result := r2\<rparr> =
                         s\<lparr>result := r2, q_cache := q_cache s2, buffer_cache := buffer_cache s2\<rparr>"
                  by (subst s2_eq) simp
                show ?thesis
                  unfolding st using pu l2 by (simp add: e)
              qed
            qed
          qed
        qed
      qed
    qed
  qed
qed

lemma factor_loop_st_eq:
  assumes "\<forall>rel\<in>set (arg_relations s). feature_size rel \<le> length (buffer_cache s)"
  shows "case factor_loop_st fs s of
           None \<Rightarrow> factor_loop (this s) (arg_X s) (arg_relations s) fs (result s) = None
         | Some s' \<Rightarrow>
             factor_loop (this s) (arg_X s) (arg_relations s) fs (result s) = Some (result s') \<and>
             s' = s\<lparr>result := result s', q_cache := q_cache s',
                    buffer_cache := buffer_cache s'\<rparr>"
  using assms
proof (induction fs arbitrary: s)
  case Nil
  then show ?case by simp
next
  case (Cons f fs)
  note S = factor_step_st_eq[OF Cons.prems, of f]
  show ?case
  proof (cases "factor_step_st f s")
    case None
    then show ?thesis using S by simp
  next
    case (Some s1)
    from S Some have
      pu: "factor_step (this s) (arg_X s) (arg_relations s) f (result s) = Some (result s1)" and
      s1_eq: "s1 = s\<lparr>result := result s1, q_cache := q_cache s1,
                       buffer_cache := buffer_cache s1\<rparr>" and
      l1: "length (buffer_cache s1) = length (buffer_cache s)"
      by simp_all
    have f1: "this s1 = this s" "arg_X s1 = arg_X s" "arg_relations s1 = arg_relations s"
      by (subst s1_eq, simp)+
    have b1: "\<forall>rel\<in>set (arg_relations s1). feature_size rel \<le> length (buffer_cache s1)"
      using Cons.prems f1 l1 by simp
    note IH = Cons.IH[OF b1]
    show ?thesis
    proof (cases "factor_loop_st fs s1")
      case None
      then show ?thesis using IH Some pu f1 by simp
    next
      case s2: (Some s2)
      from IH s2 have
        pu2: "factor_loop (this s) (arg_X s) (arg_relations s) fs (result s1) = Some (result s2)" and
        s2_eq: "s2 = s1\<lparr>result := result s2, q_cache := q_cache s2,
                         buffer_cache := buffer_cache s2\<rparr>"
        by (simp_all add: f1)
      have "s2 = s\<lparr>result := result s2, q_cache := q_cache s2,
                     buffer_cache := buffer_cache s2\<rparr>"
        by (subst s2_eq, subst s1_eq) simp
      then show ?thesis using Some s2 pu pu2 by simp
    qed
  qed
qed

lemma buffer_size_of_ge:
  "b \<le> buffer_size_of b rels \<and> (\<forall>rel\<in>set rels. feature_size rel \<le> buffer_size_of b rels)"
proof (induction rels arbitrary: b)
  case Nil
  then show ?case by simp
next
  case (Cons rel rels)
  from Cons.IH[of "max b (feature_size rel)"] show ?case by auto
qed

lemma score_body_st_eq:
  "case score_body_st s of
     None \<Rightarrow> score_body (this s) (arg_X s) (arg_relations s) = None
   | Some s' \<Rightarrow>
       score_body (this s) (arg_X s) (arg_relations s) = Some (result s') \<and>
       s' = s\<lparr>result := result s', q_cache := q_cache s', buffer_cache := buffer_cache s'\<rparr>"
proof (cases "head (w (this s)) (cols (arg_X s))")
  case None
  then show ?thesis by (simp add: score_body_st_def score_body_def)
next
  case whead: (Some whead)
  show ?thesis
  proof (cases "mat_vec (arg_X s) whead")
    case None
    then show ?thesis using whead by (simp add: score_body_st_def score_body_def)
  next
    case xw: (Some xw)
    let ?r0 = "map (\<lambda>x. w0 (this s) + x) xw"
    show ?thesis
    proof (cases "linear_blocks (w (this s)) (arg_relations s) (cols (arg_X s)) ?r0")
      case None
      then show ?thesis
        using whead xw by (simp add: score_body_st_def score_body_def linear_blocks_st_eq)
    next
      case lin: (Some lin)
      let ?s1 = "s\<lparr>result := lin\<rparr>"
      let ?s2 = "?s1\<lparr>q_cache := map (uninit ?s1) [0..<length (result ?s1)],
                       buffer_cache := replicate (buffer_size_of 1 (arg_relations ?s1)) 0\<rparr>"
      have st1: "linear_blocks_st (arg_relations s) (cols (arg_X s)) (s\<lparr>result := ?r0\<rparr>) = Some ?s1"
        using lin by (simp add: linear_blocks_st_eq)
      have b2: "\<forall>rel\<in>set (arg_relations ?s2). feature_size rel \<le> length (buffer_cache ?s2)"
        using buffer_size_of_ge[of 1 "arg_relations s"] by simp
      note L = factor_loop_st_eq[OF b2, of "[0..<nat (n_factors (this s))]"]
      have st: "score_body_st s = factor_loop_st [0..<nat (n_factors (this s))] ?s2"
        using whead xw st1 by (simp add: score_body_st_def)
      have pu: "score_body (this s) (arg_X s) (arg_relations s) =
                factor_loop (this s) (arg_X s) (arg_relations s) [0..<nat (n_factors (this s))] lin"
        using whead xw lin by (simp add: score_body_def)
      show ?thesis
      proof (cases "factor_loop_st [0..<nat (n_factors (this s))] ?s2")
        case None
        then show ?thesis using L st pu by simp
      next
        case (Some s3)
        from L Some have
          pu3: "factor_loop (this s) (arg_X s) (arg_relations s)
                  [0..<nat (n_factors (this s))] lin = Some (result s3)" and
          s3_eq: "s3 = ?s2\<lparr>result := result s3, q_cache := q_cache s3,
                           buffer_cache := buffer_cache s3\<rparr>"
          by simp_all
        have "s3 = s\<lparr>result := result s3, q_cache := q_cache s3,
                       buffer_cache := buffer_cache s3\<rparr>"
          by (subst s3_eq) simp
        then show ?thesis using st pu pu3 Some by simp
      qed
    qed
  qed
qed

lemma predict_score_call_value:
  "value_of (predict_score_call s) = predict_score (this s) (arg_X s) (arg_relations s)"
  using score_body_st_eq[of s]
  by (auto simp: predict_score_call_def predict_score_def split: sum.splits option.splits)

lemma predict_score_call_Returns:
  assumes "predict_score_call s = Returns r s'"
  shows "r = result s'"
    and "s' = s\<lparr>result := result s', q_cache := q_cache s', buffer_cache := buffer_cache s'\<rparr>"
    and "predict_score (this s) (arg_X s) (arg_relations s) = Inr r"
proof -
  from assms have b: "score_body_st s = Some s'" and r: "r = result s'"
    by (auto simp: predict_score_call_def split: sum.splits if_splits option.splits)
  show "r = result s'" by (rule r)
  show "s' = s\<lparr>result := result s', q_cache := q_cache s', buffer_cache := buffer_cache s'\<rparr>"
    using score_body_st_eq[of s] b by simp
  show "predict_score (this s) (arg_X s) (arg_relations s) = Inr r"
    using predict_score_call_value[of s] assms by simp
qed





section \<open>Runs on the concrete inputs\<close>

lemmas eval_defs = predict_score_def score_body_def factor_step_def
  head_def segment_def col_def mat_vec_def cwiseAbs2_def square_def cwise_add_def cwise_sub_def
  map_assign_def size_t_def FM_of_def example_FM_def factor_example_def base_example_def
  shared_block_def identity_block_def hconcat_def

lemma upt_2: "[0..<2] = [0, 1]"
  by (simp add: numeral_2_eq_2)

lemma run_shared_block: "predict_score example_FM base_example [shared_block] = Inr [18, 26]"
  by (simp add: eval_defs upt_2)

lemma run_identity_block: "predict_score example_FM base_example [identity_block] = Inl AssertionFailed"
  by (simp add: eval_defs upt_2)

lemma run_two_columns: "predict_score example_FM (hconcat base_example (X identity_block)) [] = Inr [18, 33]"
  by (simp add: eval_defs upt_2)

lemmas call_defs = predict_score_call_def score_body_st_def factor_step_st_def map_store_def
  enter_def

lemma run_call_shared_block:
  "predict_score_call (enter example_FM base_example [shared_block]) =
     Returns [18, 26]
       ((enter example_FM base_example [shared_block])
          \<lparr>result := [18, 26], q_cache := [37, 40], buffer_cache := [36]\<rparr>)"
  by (simp add: call_defs eval_defs upt_2)

section \<open>Properties of the scoring engine\<close>







text \<open>
  Claim C10. A score that \<open>predict_score\<close> returns is the direct quadratic form on the
  expanded matrix with the model's own \<open>w\<close> and \<open>V\<close>: column \<open>j\<close> of the expanded matrix
  meets \<open>w ! j\<close> in the linear term and row \<open>j\<close> of \<open>V\<close> in every factor of the quadratic
  term. The columns below \<open>cols Xb\<close> are those of the base matrix, and block \<open>k\<close> of the
  list occupies the next \<open>feature_size\<close> columns after the base matrix and the blocks
  before it.
\<close>

theorem positional_partition:
  assumes "predict_score fm Xb rels = Inr r"
  shows "r = direct_score (w0 fm) (w fm) (V fm) (nat (n_factors fm)) (expand Xb rels) \<and>
         cols (expand Xb rels) = cols Xb + sum_list (map feature_size rels) \<and>
         (\<forall>i. \<forall>j<cols Xb. coeff (expand Xb rels) i j = coeff Xb i j) \<and>
         (\<forall>i. \<forall>k<length rels. \<forall>j<feature_size (rels ! k).
            coeff (expand Xb rels) i
              (cols Xb + sum_list (map feature_size (take k rels)) + j) =
            coeff (X (rels ! k)) (original_to_block (rels ! k) ! i) j)"
  using predict_score_Inr[OF assms] cols_expand coeff_expand_low coeff_expand_block
  by blast

theorem positional_partition_witness:
  "predict_score example_FM base_example [shared_block] = Inr [18, 26] \<and>
   [18, 26] = direct_score (w0 example_FM) (w example_FM) (V example_FM)
                (nat (n_factors example_FM)) (expand base_example [shared_block]) \<and>
   cols (expand base_example [shared_block]) = 2"
proof -
  note P = positional_partition [OF run_shared_block]
  have "cols (expand base_example [shared_block]) = 2"
    using conjunct1 [OF conjunct2 [OF P]] by (simp add: base_example_def shared_block_def)
  with run_shared_block conjunct1 [OF P] show ?thesis by simp
qed

text \<open>
  Claim C8. When a call of \<open>predict_score\<close> returns, the score has one coefficient for each
  row of the base matrix and is the local vector \<open>result\<close> of the call; the model, the base
  matrix and the relation blocks are what they were before the call; and every call on
  the same model, base matrix and relation blocks returns the same score, whatever the
  local vectors and the fresh memory hold at its entry.
\<close>

theorem predict_score_frame:
  assumes "predict_score_call s = Returns r s'"
  shows "length r = rows (arg_X s) \<and>
         r = result s' \<and>
         this s' = this s \<and> arg_X s' = arg_X s \<and> arg_relations s' = arg_relations s \<and>
         predict_score (this s) (arg_X s) (arg_relations s) = Inr r \<and>
         (\<forall>t. this t = this s \<and> arg_X t = arg_X s \<and> arg_relations t = arg_relations s \<longrightarrow>
              (\<exists>t'. predict_score_call t = Returns r t'))"
proof -
  note R = predict_score_call_Returns[OF assms]
  have len: "length r = rows (arg_X s)"
    using predict_score_Inr[OF R(3)] by (simp add: direct_score_def)
  have fr: "this s' = this s" "arg_X s' = arg_X s" "arg_relations s' = arg_relations s"
    by (subst R(2), simp)+
  have det: "\<exists>t'. predict_score_call t = Returns r t'"
    if "this t = this s \<and> arg_X t = arg_X s \<and> arg_relations t = arg_relations s" for t
  proof -
    have "value_of (predict_score_call t) = Inr r"
      using that R(3) by (simp add: predict_score_call_value)
    then show ?thesis by (cases "predict_score_call t") simp_all
  qed
  show ?thesis using len R(1) fr R(3) det by blast
qed

theorem predict_score_frame_witness:
  "predict_score_call (enter example_FM base_example [shared_block]) =
     Returns [18, 26]
       ((enter example_FM base_example [shared_block])
          \<lparr>result := [18, 26], q_cache := [37, 40], buffer_cache := [36]\<rparr>) \<and>
   length [18, 26 :: real] = rows base_example \<and>
   (\<exists>t'. predict_score_call
           ((enter example_FM base_example [shared_block])
              \<lparr>result := [1], q_cache := [2, 3], buffer_cache := [], uninit := \<lambda>i. 7\<rparr>) =
         Returns [18, 26] t')"
proof -
  note T = predict_score_frame [OF run_call_shared_block]
  have len: "length [18, 26 :: real] = rows base_example"
    using conjunct1 [OF T] by (simp add: enter_def)
  have "\<forall>t. this t = example_FM \<and> arg_X t = base_example \<and> arg_relations t = [shared_block] \<longrightarrow>
              (\<exists>t'. predict_score_call t = Returns [18, 26] t')"
    using T by (simp add: enter_def)
  then have "\<exists>t'. predict_score_call
           ((enter example_FM base_example [shared_block])
              \<lparr>result := [1], q_cache := [2, 3], buffer_cache := [], uninit := \<lambda>i. 7\<rparr>) =
         Returns [18, 26] t'"
    by (simp add: enter_def)
  with run_call_shared_block len show ?thesis by blast
qed

lemma predict_score_noblock_direct:
  assumes init: "initialized fm"
    and cw: "cols Xb = length (w fm)"
    and rv: "rows (V fm) = length (w fm)"
  shows "predict_score_noblock fm Xb =
           Inr (direct_score (w0 fm) (w fm) (V fm) (cols (V fm)) Xb)"
proof -
  let ?xw = "map (\<lambda>i. \<Sum>j\<leftarrow>[0..<cols Xb]. coeff Xb i j * w fm ! j) [0..<rows Xb]"
  let ?xv = "\<lparr>rows = rows Xb, cols = cols (V fm),
              coeff = \<lambda>i k. \<Sum>j\<leftarrow>[0..<cols Xb]. coeff Xb i j * coeff (V fm) j k\<rparr>"
  let ?r1 = "map2 (+) (map (\<lambda>x. w0 fm + x) ?xw)
               (map (\<lambda>x. x * (1 / 2)) (rowwise_sum (cwiseAbs2 ?xv)))"
  let ?c = "map (\<lambda>i. \<Sum>j\<leftarrow>[0..<cols Xb]. coeff (cwiseAbs2 Xb) i j *
               map (\<lambda>x. (1 / 2) * x) (rowwise_sum (cwiseAbs2 (V fm))) ! j) [0..<rows Xb]"
  have xw: "mat_vec Xb (w fm) = Some ?xw" using cw by (simp add: mat_vec_def)
  have xv: "mat_mat Xb (V fm) = Some ?xv" using cw rv by (simp add: mat_mat_def)
  have r1: "cwise_add (map (\<lambda>x. w0 fm + x) ?xw)
              (map (\<lambda>x. x * (1 / 2)) (rowwise_sum (cwiseAbs2 ?xv))) = Some ?r1"
    by (simp add: cwise_add_def rowwise_sum_def)
  have c: "mat_vec (cwiseAbs2 Xb) (map (\<lambda>x. (1 / 2) * x) (rowwise_sum (cwiseAbs2 (V fm))))
             = Some ?c"
    using cw rv by (simp add: mat_vec_def rowwise_sum_def)
  have sub: "cwise_sub ?r1 ?c = Some (map2 (-) ?r1 ?c)"
    by (simp add: cwise_sub_def rowwise_sum_def)
  have run: "predict_score_noblock fm Xb = Inr (map2 (-) ?r1 ?c)"
    using init by (simp only: predict_score_noblock_def xw xv r1 c sub if_False not_True_eq_False
        bind.simps option.case simp_thms)
  have len: "length (map2 (-) ?r1 ?c) =
             length (direct_score (w0 fm) (w fm) (V fm) (cols (V fm)) Xb)"
    by (simp add: direct_score_def rowwise_sum_def)
  have "map2 (-) ?r1 ?c = direct_score (w0 fm) (w fm) (V fm) (cols (V fm)) Xb"
  proof (rule nth_equalityI[OF len])
    fix i assume "i < length (map2 (-) ?r1 ?c)"
    then have i: "i < rows Xb" by (simp add: rowwise_sum_def)
    let ?Q = "\<lambda>f. (\<Sum>j = 0..<cols Xb. coeff Xb i j * coeff (V fm) j f)"
    have ci: "?c ! i = (1 / 2) * (\<Sum>f = 0..<cols (V fm).
                \<Sum>j = 0..<cols Xb. (coeff Xb i j)\<^sup>2 * (coeff (V fm) j f)\<^sup>2)"
    proof -
      have "?c ! i = (\<Sum>j = 0..<cols Xb. (coeff Xb i j)\<^sup>2 *
                        ((1 / 2) * (\<Sum>f = 0..<cols (V fm). (coeff (V fm) j f)\<^sup>2)))"
        using i cw rv
        by (simp add: rowwise_sum_def interv_sum_list_conv_sum_set_nat power2_eq_square)
      also have "\<dots> = (1 / 2) * (\<Sum>j = 0..<cols Xb. \<Sum>f = 0..<cols (V fm).
                          (coeff Xb i j)\<^sup>2 * (coeff (V fm) j f)\<^sup>2)"
        by (simp add: sum_distrib_left mult.left_commute)
      also have "(\<Sum>j = 0..<cols Xb. \<Sum>f = 0..<cols (V fm).
                          (coeff Xb i j)\<^sup>2 * (coeff (V fm) j f)\<^sup>2) =
                 (\<Sum>f = 0..<cols (V fm). \<Sum>j = 0..<cols Xb.
                          (coeff Xb i j)\<^sup>2 * (coeff (V fm) j f)\<^sup>2)"
        by (rule sum.swap)
      finally show ?thesis .
    qed
    have r1i: "?r1 ! i = w0 fm + (\<Sum>j = 0..<cols Xb. coeff Xb i j * w fm ! j)
                 + (1 / 2) * (\<Sum>f = 0..<cols (V fm). (?Q f)\<^sup>2)"
      using i by (simp add: rowwise_sum_def interv_sum_list_conv_sum_set_nat power2_eq_square)
    have "map2 (-) ?r1 ?c ! i = ?r1 ! i - ?c ! i"
      using i by (simp add: rowwise_sum_def)
    also have "\<dots> = w0 fm + (\<Sum>j = 0..<cols Xb. coeff Xb i j * w fm ! j)
                 + (1 / 2) * (\<Sum>f = 0..<cols (V fm). (?Q f)\<^sup>2
                    - (\<Sum>j = 0..<cols Xb. (coeff Xb i j)\<^sup>2 * (coeff (V fm) j f)\<^sup>2))"
      by (simp only: r1i ci) (simp add: sum_subtractf right_diff_distrib)
    also have "\<dots> = direct_score (w0 fm) (w fm) (V fm) (cols (V fm)) Xb ! i"
      using i by (simp add: direct_score_def interv_sum_list_conv_sum_set_nat)
    finally show "map2 (-) ?r1 ?c ! i = direct_score (w0 fm) (w fm) (V fm) (cols (V fm)) Xb ! i" .
  qed
  with run show ?thesis by simp
qed

text \<open>
  Claim C1. On an initialized model whose \<open>w\<close> has as many coefficients as the base matrix
  has columns and \<open>V\<close> has rows, and whose number of factors is the number of columns of
  \<open>V\<close>, \<open>predict_score\<close> with no relation block returns the direct quadratic form, and so
  does the scoring function without relation blocks.
\<close>

theorem no_block_equivalence:
  assumes "initialized fm"
    and "cols Xb = length (w fm)"
    and "rows (V fm) = length (w fm)"
    and "n_factors fm = int (cols (V fm))"
  shows "predict_score fm Xb [] = Inr (direct_score (w0 fm) (w fm) (V fm) (cols (V fm)) Xb) \<and>
         predict_score_noblock fm Xb = predict_score fm Xb []"
proof -
  have "scorable fm Xb []" using assms by (simp add: scorable_def)
  from predict_score_scorable[OF this] assms(4)
  have "predict_score fm Xb [] = Inr (direct_score (w0 fm) (w fm) (V fm) (cols (V fm)) Xb)"
    by simp
  then show ?thesis using predict_score_noblock_direct[OF assms(1-3)] by simp
qed

theorem no_block_equivalence_witness:
  "initialized example_FM \<and>
   cols (hconcat base_example (X identity_block)) = length (w example_FM) \<and>
   rows (V example_FM) = length (w example_FM) \<and>
   n_factors example_FM = int (cols (V example_FM)) \<and>
   direct_score (w0 example_FM) (w example_FM) (V example_FM) (cols (V example_FM))
     (hconcat base_example (X identity_block)) = [18, 33] \<and>
   predict_score_noblock example_FM (hconcat base_example (X identity_block)) = Inr [18, 33]"
proof -
  have a: "initialized example_FM"
    by (simp add: example_FM_def FM_of_def)
  have b: "cols (hconcat base_example (X identity_block)) = length (w example_FM)"
    by (simp add: eval_defs)
  have c: "rows (V example_FM) = length (w example_FM)"
    by (simp add: eval_defs)
  have d: "n_factors example_FM = int (cols (V example_FM))"
    by (simp add: eval_defs)
  note T = no_block_equivalence [OF a b c d]
  from T run_two_columns a b c d show ?thesis by simp
qed

lemma direct_score_cong:
  assumes "rows A = rows B" and "cols A = cols B"
    and "\<And>i j. i < rows A \<Longrightarrow> j < cols A \<Longrightarrow> coeff A i j = coeff B i j"
  shows "direct_score b wv Vm K A = direct_score b wv Vm K B"
  using assms by (simp add: direct_score_def interv_sum_list_conv_sum_set_nat)

text \<open>
  Where \<open>predict_score\<close> returns a score for a block with the identity mapping, which for
  a positive number of factors needs a block matrix with as many rows as \<open>feature_size\<close>,
  the score is that of the two matrices side by side.
\<close>

lemma block_deduplication_square:
  assumes ok: "scorable fm Xb [blk]"
    and ident: "original_to_block blk = [0..<rows Xb]"
  shows "predict_score fm Xb [blk] = predict_score fm (hconcat Xb (X blk)) []"
proof -
  have fit: "cols (X blk) = feature_size blk"
    using ok by (simp add: scorable_def block_fits_def)
  have "scorable fm (hconcat Xb (X blk)) []"
    using ok fit by (simp add: scorable_def hconcat_def)
  from predict_score_scorable[OF this] predict_score_scorable[OF ok]
  have "predict_score fm (hconcat Xb (X blk)) [] =
          Inr (direct_score (w0 fm) (w fm) (V fm) (nat (n_factors fm)) (hconcat Xb (X blk)))"
    and "predict_score fm Xb [blk] =
          Inr (direct_score (w0 fm) (w fm) (V fm) (nat (n_factors fm)) (append_block Xb blk))"
    by simp_all
  moreover have "direct_score (w0 fm) (w fm) (V fm) (nat (n_factors fm)) (append_block Xb blk) =
                 direct_score (w0 fm) (w fm) (V fm) (nat (n_factors fm)) (hconcat Xb (X blk))"
    using fit ident by (intro direct_score_cong) (simp_all add: append_block_def hconcat_def)
  ultimately show ?thesis by simp
qed

text \<open>
  Claim C2 at a concrete input: a base matrix with two cases and one column, a relation
  block with one row for each case (identity mapping) and one column, one factor. In the
  factor loop the product of the block matrix (two rows) is assigned to \<open>block_cache\<close>, a
  map of \<open>feature_size = 1\<close> coefficient on a buffer of one coefficient: the assignment
  fails, where the scoring of the two matrices side by side returns a score.
\<close>

theorem block_deduplication_failing_input:
  "predict_score example_FM base_example [identity_block] = Inl AssertionFailed \<and>
   predict_score example_FM (hconcat base_example (X identity_block)) [] = Inr [18, 33]"
  using run_identity_block run_two_columns by (rule conjI)

end
